theory Spec2Isabelle
  imports Complex_Main
begin

section \<open>Errors\<close>

text \<open>
  Every exception that the modelled Python code can raise is a value of this type.
  \<open>SkipBatchException\<close> and \<open>RuntimeError\<close> carry their message. \<open>NotModelled\<close> is not
  an exception: it marks the one situation in which the source goes on with an object that
  the datatype of trees below cannot represent (see \<open>leaf_parent\<close>).
\<close>

datatype error =
    SkipBatchException string
  | RuntimeError string
  | ValueError
  | IndexError
  | TypeError
  | AttributeError
  | NotModelled

section \<open>Leaf records and hierarchical nodes\<close>

text \<open>
  A leaf record (\<open>WellSegment\<close>) is an external collaborator; this development uses its depth
  interval only.
\<close>

record segment =
  seg_depth_from :: real
  seg_depth_to :: real

text \<open>
  Modelled from the spec: the class \<open>WellSegment\<close> is not among the sources; its attribute
  \<open>length\<close> is \<open>depth_to - depth_from\<close>.
\<close>

definition seg_length :: "segment \<Rightarrow> real" where
  "seg_length s = seg_depth_to s - seg_depth_from s"

text \<open>
  A hierarchical node (\<open>Well\<close>) has one attribute, the list \<open>segments\<close> of its children, each
  a leaf or a node. The methods below take the state of the object graph under \<open>self\<close> as a
  value of this type and, when they assign to \<open>segments\<close>, return the state after the call
  (the same object: the methods end with \<open>return self\<close>). This reading of the assignments
  is exact when no \<open>Well\<close> object occurs at two positions under \<open>self\<close>, as in every tree
  that the constructor and the methods of the class build.
\<close>

datatype node =
    WellSegment segment
  | Well "node list"

fun is_segment :: "node \<Rightarrow> bool" where
  "is_segment (WellSegment s) = True"
| "is_segment (Well cs) = False"

text \<open>\<open>_has_segments\<close>, on the list \<open>self.segments\<close>.\<close>

definition has_segments :: "node list \<Rightarrow> bool" where
  "has_segments cs = list_all is_segment cs"

text \<open>
  Modelled from the spec: a leaf exposes \<open>depth_from\<close>, \<open>depth_to\<close>, \<open>length\<close> and its named
  operations only, so reading \<open>tree_depth\<close> or calling \<open>iter_level\<close> or \<open>prune\<close> on a leaf
  raises \<open>AttributeError\<close>.
\<close>

fun tree_depth :: "node \<Rightarrow> error + int" where
  "tree_depth (WellSegment s) = Inl AttributeError"
| "tree_depth (Well cs) =
     (if has_segments cs then Inr 2
      else (case cs of
              [] \<Rightarrow> Inl IndexError
            | c # rest \<Rightarrow> (case tree_depth c of Inl e \<Rightarrow> Inl e | Inr d \<Rightarrow> Inr (d + 1))))"

text \<open>
  A list comprehension whose element expression may raise: the elements are evaluated left
  to right and the first exception leaves the comprehension.
\<close>

fun collect :: "(error + 'a) list \<Rightarrow> error + 'a list" where
  "collect [] = Inr []"
| "collect (r # rs) =
     (case r of
        Inl e \<Rightarrow> Inl e
      | Inr x \<Rightarrow> (case collect rs of Inl e \<Rightarrow> Inl e | Inr xs \<Rightarrow> Inr (x # xs)))"

text \<open>Python's \<open>min\<close> and \<open>max\<close> of a list: \<open>ValueError\<close> on the empty list.\<close>

fun py_min :: "real list \<Rightarrow> error + real" where
  "py_min [] = Inl ValueError"
| "py_min (x # xs) = Inr (fold min xs x)"

fun py_max :: "real list \<Rightarrow> error + real" where
  "py_max [] = Inl ValueError"
| "py_max (x # xs) = Inr (fold max xs x)"

fun depth_from :: "node \<Rightarrow> error + real" where
  "depth_from (WellSegment s) = Inr (seg_depth_from s)"
| "depth_from (Well cs) =
     (case collect (map depth_from cs) of Inl e \<Rightarrow> Inl e | Inr vs \<Rightarrow> py_min vs)"

fun depth_to :: "node \<Rightarrow> error + real" where
  "depth_to (WellSegment s) = Inr (seg_depth_to s)"
| "depth_to (Well cs) =
     (case collect (map depth_to cs) of Inl e \<Rightarrow> Inl e | Inr vs \<Rightarrow> py_max vs)"

text \<open>\<open>length\<close>: \<open>self.depth_to - self.depth_from\<close>, the left operand first.\<close>

fun length_well :: "node \<Rightarrow> error + real" where
  "length_well (WellSegment s) = Inr (seg_length s)"
| "length_well (Well cs) =
     (case depth_to (Well cs) of
        Inl e \<Rightarrow> Inl e
      | Inr hi \<Rightarrow> (case depth_from (Well cs) of Inl e \<Rightarrow> Inl e | Inr lo \<Rightarrow> Inr (hi - lo)))"

text \<open>
  \<open>iter_level(self, level)\<close>. \<open>self.tree_depth\<close> is read on every path (for a negative
  level in the normalisation, otherwise in the range check), so its exception comes first.
\<close>

fun iter_level :: "node \<Rightarrow> int \<Rightarrow> error + node list" where
  "iter_level (WellSegment s) level = Inl AttributeError"
| "iter_level (Well cs) level =
     (case tree_depth (Well cs) of
        Inl e \<Rightarrow> Inl e
      | Inr d \<Rightarrow>
          (let level = (if level \<ge> 0 then level else d + level) in
           if level < 0 \<or> level > d then Inl ValueError
           else if level = 0 then Inr [Well cs]
           else if level = 1 then Inr cs
           else (case collect (map (\<lambda>well. iter_level well (level - 1)) cs) of
                   Inl e \<Rightarrow> Inl e
                 | Inr xss \<Rightarrow> Inr (concat xss))))"

text \<open>\<open>n_segments\<close>: \<open>len(self.iter_level())\<close>, with the default level \<open>-1\<close>.\<close>

definition n_segments :: "node \<Rightarrow> error + nat" where
  "n_segments self =
     (case iter_level self (- 1) of Inl e \<Rightarrow> Inl e | Inr xs \<Rightarrow> Inr (length xs))"

text \<open>A list comprehension with a condition that may raise.\<close>

fun filter_e :: "('a \<Rightarrow> error + bool) \<Rightarrow> 'a list \<Rightarrow> error + 'a list" where
  "filter_e p [] = Inr []"
| "filter_e p (x # xs) =
     (case p x of
        Inl e \<Rightarrow> Inl e
      | Inr b \<Rightarrow>
          (case filter_e p xs of
             Inl e \<Rightarrow> Inl e
           | Inr ys \<Rightarrow> Inr (if b then x # ys else ys)))"

text \<open>The condition of \<open>prune\<close>: \<open>isinstance(well, WellSegment) or well.n_segments > 0\<close>.\<close>

definition keeps :: "node \<Rightarrow> error + bool" where
  "keeps well =
     (if is_segment well then Inr True
      else (case n_segments well of Inl e \<Rightarrow> Inl e | Inr n \<Rightarrow> Inr (n > 0)))"

lemma filter_e_subset: "filter_e p xs = Inr ys \<Longrightarrow> set ys \<subseteq> set xs"
  by (induction xs arbitrary: ys) (auto split: sum.splits if_splits)

text \<open>
  \<open>prune(self)\<close>: first \<open>self.segments\<close> is rebuilt from the children that pass the
  condition, then every remaining child that is a \<open>Well\<close> is pruned, in order.
\<close>

function prune :: "node \<Rightarrow> error + node" where
  "prune (WellSegment s) = Inl AttributeError"
| "prune (Well cs) =
     (case filter_e keeps cs of
        Inl e \<Rightarrow> Inl e
      | Inr ks \<Rightarrow>
          (case collect (map (\<lambda>well. if is_segment well then Inr well else prune well) ks) of
             Inl e \<Rightarrow> Inl e
           | Inr ks' \<Rightarrow> Inr (Well ks')))"
  by pat_completeness auto
termination
proof (relation "measure size")
  show "wf (measure (size :: node \<Rightarrow> nat))" by simp
next
  fix cs ks :: "node list" and well :: node
  assume "filter_e keeps cs = Inr ks" and "well \<in> set ks"
  then have "well \<in> set cs" using filter_e_subset by blast
  then have "size well < Suc (size_list size cs)"
    by (simp add: less_Suc_eq_le size_list_estimation')
  then show "(well, Well cs) \<in> measure size" by simp
qed

section \<open>Tree-shaping operations\<close>

text \<open>
  The nodes at depth \<open>l\<close> under a node, from left to right. \<open>iter_level\<close> returns this list
  whenever it returns (lemmas \<open>iter_level_level_nodes\<close> and \<open>iter_level_minus_2_level_nodes\<close>
  below); the objects in the list that \<open>iter_level\<close> returns are identified by their position
  in it.
\<close>

fun level_nodes :: "nat \<Rightarrow> node \<Rightarrow> node list" where
  "level_nodes 0 t = [t]"
| "level_nodes (Suc l) (WellSegment s) = []"
| "level_nodes (Suc l) (Well cs) = concat (map (level_nodes l) cs)"

text \<open>
  \<open>for well in wells: well.segments = ...\<close>, for \<open>wells\<close> the nodes at depth \<open>l\<close>:
  \<open>assign_level l news self\<close> is the tree under \<open>self\<close> after the \<open>i\<close>-th of these nodes got
  the list \<open>news ! i\<close> as its \<open>segments\<close>. Each child takes the part of \<open>news\<close> that belongs to
  the nodes under it.
\<close>

fun assign_level :: "nat \<Rightarrow> node list list \<Rightarrow> node \<Rightarrow> node"
  and assign_children :: "nat \<Rightarrow> node list list \<Rightarrow> node list \<Rightarrow> node list" where
  "assign_level l news (WellSegment s) = WellSegment s"
| "assign_level 0 news (Well cs) = (case news of [] \<Rightarrow> Well cs | new # rest \<Rightarrow> Well new)"
| "assign_level (Suc l) news (Well cs) = Well (assign_children l news cs)"
| "assign_children l news [] = []"
| "assign_children l news (c # cs) =
     assign_level l (take (length (level_nodes l c)) news) c
       # assign_children l (drop (length (level_nodes l c)) news) cs"

text \<open>The assignment to the nodes that \<open>self.iter_level(-2)\<close> returned.\<close>

definition assign_wells :: "node \<Rightarrow> node list list \<Rightarrow> error + node" where
  "assign_wells self news =
     (case tree_depth self of
        Inl e \<Rightarrow> Inl e
      | Inr d \<Rightarrow> Inr (assign_level (nat (d - 2)) news self))"

text \<open>
  The loops of the tree-shaping methods call a leaf operation on every child of a node of
  \<open>iter_level(-2)\<close>. When such a child is itself a \<open>Well\<close> (the tree depth is read off the
  first child, so this happens in trees whose leaves lie at different depths), the call is the
  method of \<open>Well\<close>, which returns a \<open>Well\<close> instead of a list of leaves, and the constructor
  stores that object as \<open>segments\<close>. The model stops there with \<open>NotModelled\<close>.
\<close>

fun leaf_parent :: "node \<Rightarrow> bool" where
  "leaf_parent (WellSegment s) = False"
| "leaf_parent (Well cs) = has_segments cs"

fun leaf_segments :: "node \<Rightarrow> segment list" where
  "leaf_segments (WellSegment s) = []"
| "leaf_segments (Well []) = []"
| "leaf_segments (Well (WellSegment s # cs)) = s # leaf_segments (Well cs)"
| "leaf_segments (Well (Well ds # cs)) = leaf_segments (Well cs)"


definition crop :: "(segment \<Rightarrow> segment list) \<Rightarrow> node \<Rightarrow> error + node" where
  "crop leaf_crop self =
     (case iter_level self (- 2) of
        Inl e \<Rightarrow> Inl e
      | Inr wells \<Rightarrow>
          if \<not> list_all leaf_parent wells then Inl NotModelled
          else assign_wells self
                 (map (\<lambda>well. map (\<lambda>segment. Well (map WellSegment (leaf_crop segment)))
                                 (leaf_segments well)) wells))"

definition drop_nans :: "(segment \<Rightarrow> segment list) \<Rightarrow> node \<Rightarrow> error + node" where
  "drop_nans leaf_drop_nans self =
     (case iter_level self (- 2) of
        Inl e \<Rightarrow> Inl e
      | Inr wells \<Rightarrow>
          if \<not> list_all leaf_parent wells then Inl NotModelled
          else (case assign_wells self
                       (map (\<lambda>well. map (\<lambda>segment. Well (map WellSegment (leaf_drop_nans segment)))
                                       (leaf_segments well)) wells) of
                  Inl e \<Rightarrow> Inl e
                | Inr self' \<Rightarrow> prune self'))"


subsection \<open>\<open>random_crop\<close>\<close>

text \<open>
  \<open>Counter(xs).items()\<close>: the distinct elements of \<open>xs\<close> in the order of their first
  occurrence, each with the number of its occurrences.
\<close>

fun counter_add :: "'a \<Rightarrow> ('a \<times> nat) list \<Rightarrow> ('a \<times> nat) list" where
  "counter_add x [] = [(x, 1)]"
| "counter_add x ((y, n) # kvs) =
     (if x = y then (y, Suc n) # kvs else (y, n) # counter_add x kvs)"

definition counter :: "'a list \<Rightarrow> ('a \<times> nat) list" where
  "counter xs = foldl (\<lambda>kvs x. counter_add x kvs) [] xs"

text \<open>
  \<open>np.random.choice(a, size, p=p/sum(p))\<close>. The random outcome is a parameter: \<open>picks\<close> is
  the sequence of the positions in \<open>a\<close> that the generator draws, of which the call takes
  the first \<open>n\<close> (its argument \<open>size\<close>). The call raises \<open>ValueError\<close> when the weights do
  not normalise to probabilities (their sum is zero, also for an empty \<open>a\<close>, or a quotient is
  negative).
\<close>

definition choice :: "nat \<Rightarrow> real list \<Rightarrow> nat list \<Rightarrow> error + nat list" where
  "choice n p picks =
     (let total = sum_list p in
      if total = 0 \<or> list_ex (\<lambda>x. x / total < 0) p then Inl ValueError
      else Inr (take n picks))"

text \<open>
  The second stage for one selected node: its new \<open>segments\<close>, one \<open>Well\<close> per drawn leaf
  (in the order of \<open>Counter.items()\<close>), holding the crops of this leaf.
\<close>

definition crop_well ::
  "(segment \<Rightarrow> nat \<Rightarrow> segment list) \<Rightarrow> nat list \<Rightarrow> nat \<Rightarrow> node \<Rightarrow> error + node list" where
  "crop_well leaf_random_crop picks n_well_crops well =
     (let segs = leaf_segments well; p = map seg_length segs in
      case choice n_well_crops p picks of
        Inl e \<Rightarrow> Inl e
      | Inr drawn \<Rightarrow>
          Inr (map (\<lambda>(j, n_segment_crops).
                      Well (map WellSegment (leaf_random_crop (segs ! j) n_segment_crops)))
                 (counter drawn)))"

text \<open>
  The two sampling stages of \<open>random_crop\<close>, up to the call of \<open>prune\<close>. \<open>picks1\<close> are the
  draws of the first stage (positions in \<open>wells\<close>) and \<open>picks2 i\<close> those of the second stage
  for the node at position \<open>i\<close>.
\<close>

definition random_crop_assign ::
  "(segment \<Rightarrow> nat \<Rightarrow> segment list) \<Rightarrow> nat list \<Rightarrow> (nat \<Rightarrow> nat list) \<Rightarrow> nat \<Rightarrow> node
     \<Rightarrow> error + node" where
  "random_crop_assign leaf_random_crop picks1 picks2 n_crops self =
     (case iter_level self (- 2) of
        Inl e \<Rightarrow> Inl e
      | Inr wells \<Rightarrow>
          if \<not> list_all leaf_parent wells then Inl NotModelled
          else
            let p = map (\<lambda>item. sum_list (map seg_length (leaf_segments item))) wells in
            (case choice n_crops p picks1 of
               Inl e \<Rightarrow> Inl e
             | Inr drawn \<Rightarrow>
                 let random_wells = counter drawn in
                 (case collect
                         (map (\<lambda>(i, well).
                                 case map_of random_wells i of
                                   Some n_well_crops \<Rightarrow>
                                     crop_well leaf_random_crop (picks2 i) n_well_crops well
                                 | None \<Rightarrow> Inr [])
                            (enumerate 0 wells)) of
                    Inl e \<Rightarrow> Inl e
                  | Inr news \<Rightarrow> assign_wells self news)))"

definition random_crop ::
  "(segment \<Rightarrow> nat \<Rightarrow> segment list) \<Rightarrow> nat list \<Rightarrow> (nat \<Rightarrow> nat list) \<Rightarrow> nat \<Rightarrow> node
     \<Rightarrow> error + node" where
  "random_crop leaf_random_crop picks1 picks2 n_crops self =
     (case random_crop_assign leaf_random_crop picks1 picks2 n_crops self of
        Inl e \<Rightarrow> Inl e
      | Inr self' \<Rightarrow> prune self')"

section \<open>Capability dispatcher\<close>

text \<open>
  The claim about the dispatcher speaks of object identity (a copy is returned, the caller
  is not assigned to), so this section keeps the objects in a store: a reference is a
  position in the list of all objects, and a new object is appended. A \<open>Well\<close> object is its
  attribute \<open>segments\<close>, a list of references.
\<close>

type_synonym ref = nat

datatype obj =
    SegmentObj segment
  | WellObj "ref list"

type_synonym store = "obj list"

text \<open>What a call of the operation on a child returns: one item, or a list of items.\<close>

datatype res =
    Single ref
  | Listed "ref list"

text \<open>\<open>if not isinstance(res, list): res = [res]\<close>\<close>

fun as_list :: "res \<Rightarrow> ref list" where
  "as_list (Single r) = [r]"
| "as_list (Listed rs) = rs"

text \<open>
  \<open>getattr(segment, name)(*args, **kwargs)\<close> is a parameter \<open>call\<close>: the bound method of
  the child, which returns or raises and may change the store. The loop of the delegator
  extends \<open>results\<close> child by child; an exception of a child leaves the loop.
\<close>

fun delegator_loop ::
  "(ref \<Rightarrow> store \<Rightarrow> (error + res) \<times> store) \<Rightarrow> ref list \<Rightarrow> ref list \<Rightarrow> store
     \<Rightarrow> (error + ref list) \<times> store" where
  "delegator_loop call [] results h = (Inr results, h)"
| "delegator_loop call (segment # rest) results h =
     (case call segment h of
        (Inl e, h') \<Rightarrow> (Inl e, h')
      | (Inr res, h') \<Rightarrow> delegator_loop call rest (results @ as_list res) h')"

text \<open>
  The delegator that \<open>_make_delegator\<close> builds for an operation. \<open>self.copy()\<close> allocates an
  object with the attributes that \<open>self\<close> has at that moment; the assignment
  \<open>res_well.segments = results\<close> then writes the new object.
\<close>

definition delegator ::
  "(ref \<Rightarrow> store \<Rightarrow> (error + res) \<times> store) \<Rightarrow> ref \<Rightarrow> store \<Rightarrow> (error + ref) \<times> store" where
  "delegator call self h =
     (case h ! self of
        SegmentObj s \<Rightarrow> (Inl AttributeError, h)
      | WellObj segments \<Rightarrow>
          (case delegator_loop call segments [] h of
             (Inl e, h') \<Rightarrow> (Inl e, h')
           | (Inr results, h') \<Rightarrow>
               (let res_well = length h';
                    h'' = h' @ [h' ! self]
                in (Inr res_well, h''[res_well := WellObj results]))))"

section \<open>Batch collection: \<open>WellBatch._filter_assemble\<close>\<close>

text \<open>
  The parallel-map collaborator hands the post-processing hook one entry per dispatched
  root, in the original order: the value the root's operation returned, or the exception
  it raised (as a value). An exception is either the designated skip condition
  \<open>SkipWellException\<close> or any other exception; both carry their message.
\<close>

datatype 'w result =
    Success 'w
  | SkipWellException string
  | OtherException string

text \<open>
  A batch holds the identifier index and the array of roots (the component \<open>wells\<close>).
  The index collaborator is an ordered identifier sequence; \<open>create_subset ids\<close> is the index
  over \<open>ids\<close>, so the index is modelled by its identifier list.
\<close>

record ('i, 'w) batch =
  index :: "'i list"
  wells :: "'w list"

fun is_skip :: "'w result \<Rightarrow> bool" where
  "is_skip (SkipWellException m) = True"
| "is_skip r = False"

fun is_exception :: "'w result \<Rightarrow> bool" where
  "is_exception (Success w) = False"
| "is_exception r = True"

text \<open>
  Modelled from the spec: \<open>any_action_failed\<close> belongs to the external batch engine; a result
  is a failure when it is an exception.
\<close>

definition any_action_failed :: "'w result list \<Rightarrow> bool" where
  "any_action_failed rs = list_ex is_exception rs"

text \<open>\<open>str(res)\<close>: the message of an exception; \<open>repr\<close> prints a root.\<close>

fun str_result :: "('w \<Rightarrow> string) \<Rightarrow> 'w result \<Rightarrow> string" where
  "str_result repr (Success w) = repr w"
| "str_result repr (SkipWellException m) = m"
| "str_result repr (OtherException m) = m"

text \<open>\<open>a[~mask]\<close> for a boolean mask of the length of \<open>a\<close>: the entries whose mask is False.\<close>

definition unmasked :: "'a list \<Rightarrow> bool list \<Rightarrow> 'a list" where
  "unmasked xs ms = map fst (filter (\<lambda>(x, m). \<not> m) (zip xs ms))"

fun successes :: "'w result list \<Rightarrow> 'w list" where
  "successes [] = []"
| "successes (Success w # rs) = w # successes rs"
| "successes (r # rs) = successes rs"

text \<open>
  \<open>_filter_assemble(self, results)\<close>. The value is the exception raised (if any) together
  with the state of the batch object afterwards. The branches follow the source lines:
  \<^item> all entries are skips (\<open>sum(skip_mask) == len(self)\<close>, where \<open>len(self)\<close> is the length
    of the index): raise \<open>SkipBatchException(str(results[0]))\<close>; \<open>results[0]\<close> raises
    \<open>IndexError\<close> on an empty list;
  \<^item> \<open>np.array(results)[~skip_mask]\<close>: \<open>~\<close> raises \<open>TypeError\<close> on the (float) array built
    from an empty list;
  \<^item> a remaining exception: raise \<open>RuntimeError\<close>;
  \<^item> \<open>self.indices[~skip_mask]\<close> raises \<open>IndexError\<close> when the mask and the index differ
    in length;
  \<^item> only then are \<open>self.index\<close> and \<open>self.wells\<close> assigned.
\<close>

definition filter_assemble ::
  "('w \<Rightarrow> string) \<Rightarrow> ('i, 'w) batch \<Rightarrow> 'w result list \<Rightarrow> error option \<times> ('i, 'w) batch" where
  "filter_assemble repr self results =
     (let skip_mask = map is_skip results in
      if length (filter id skip_mask) = length (index self) then
        (case results of
           [] \<Rightarrow> (Some IndexError, self)
         | r # _ \<Rightarrow> (Some (SkipBatchException (str_result repr r)), self))
      else if results = [] then (Some TypeError, self)
      else
        let results' = unmasked results skip_mask in
        if any_action_failed results' then
          (Some (RuntimeError ''Could not assemble the batch''), self)
        else if length skip_mask \<noteq> length (index self) then (Some IndexError, self)
        else (None, self\<lparr>index := unmasked (index self) skip_mask, wells := successes results'\<rparr>))"

section \<open>Specification-level notions\<close>

text \<open>
  The definitions of this section do not model code: they are the terms in which the
  properties below are stated.
\<close>

text \<open>
  The pairs of an identifier and the root that its operation returned, in the original
  order: the specification's view of the surviving part of a dispatch.
\<close>

fun surviving :: "('i \<times> 'w result) list \<Rightarrow> ('i \<times> 'w) list" where
  "surviving [] = []"
| "surviving ((i, Success w) # ps) = (i, w) # surviving ps"
| "surviving (p # ps) = surviving ps"

text \<open>The leaves under a node, from left to right.\<close>

fun leaves :: "node \<Rightarrow> segment list" where
  "leaves (WellSegment s) = [s]"
| "leaves (Well cs) = concat (map leaves cs)"

text \<open>A node together with all its descendants.\<close>

fun subnodes :: "node \<Rightarrow> node list" where
  "subnodes (WellSegment s) = [WellSegment s]"
| "subnodes (Well cs) = Well cs # concat (map subnodes cs)"

text \<open>No \<open>Well\<close> of the tree has an empty list of children.\<close>

fun nonempty :: "node \<Rightarrow> bool" where
  "nonempty (WellSegment s) = True"
| "nonempty (Well cs) = (cs \<noteq> [] \<and> list_all nonempty cs)"

text \<open>
  A tree of uniform depth: \<open>regular k t\<close> holds when every leaf of \<open>t\<close> lies \<open>k + 1\<close> levels
  below \<open>t\<close>, the nodes \<open>k\<close> levels below \<open>t\<close> (the parents of leaves) have leaves only as
  children, and every node above them has at least one child. A parent of leaves may be
  empty.
\<close>

fun regular :: "nat \<Rightarrow> node \<Rightarrow> bool" where
  "regular k (WellSegment s) = False"
| "regular 0 (Well cs) = has_segments cs"
| "regular (Suc k) (Well cs) = (cs \<noteq> [] \<and> list_all (regular k) cs)"

text \<open>
  Pruning as the specification words it: at every level, the children that are not leaves
  and have no leaf below them are removed.
\<close>

fun sprune :: "node \<Rightarrow> node" where
  "sprune (WellSegment s) = WellSegment s"
| "sprune (Well cs) = Well (map sprune (filter (\<lambda>c. is_segment c \<or> leaves c \<noteq> []) cs))"

text \<open>The smallest top and the largest bottom depth among the leaves under a node.\<close>

fun lo_of :: "node \<Rightarrow> real" where
  "lo_of (WellSegment s) = seg_depth_from s"
| "lo_of (Well cs) = Min (set (map lo_of cs))"

fun hi_of :: "node \<Rightarrow> real" where
  "hi_of (WellSegment s) = seg_depth_to s"
| "hi_of (Well cs) = Max (set (map hi_of cs))"

text \<open>Cutting a list into consecutive pieces of given lengths.\<close>

fun chunks :: "nat list \<Rightarrow> 'a list \<Rightarrow> 'a list list" where
  "chunks [] xs = []"
| "chunks (n # ns) xs = take n xs # chunks ns (drop n xs)"


text \<open>
  Calling the operation on every child in order, each call starting from the store that the
  previous one left: the raw results of the calls and the final store, or the first
  exception.
\<close>

fun call_all ::
  "(ref \<Rightarrow> store \<Rightarrow> (error + res) \<times> store) \<Rightarrow> ref list \<Rightarrow> store \<Rightarrow> (error + res list) \<times> store" where
  "call_all call [] h = (Inr [], h)"
| "call_all call (c # cs) h =
     (case call c h of
        (Inl e, h') \<Rightarrow> (Inl e, h')
      | (Inr r, h') \<Rightarrow>
          (case call_all call cs h' of
             (Inl e, h'') \<Rightarrow> (Inl e, h'')
           | (Inr rs, h'') \<Rightarrow> (Inr (r # rs), h'')))"

text \<open>
  \<open>above Q k t\<close>: the nodes \<open>k\<close> levels below \<open>t\<close> satisfy \<open>Q\<close>, and every node above them
  is a \<open>Well\<close> with at least one child.
\<close>

fun above :: "(node \<Rightarrow> bool) \<Rightarrow> nat \<Rightarrow> node \<Rightarrow> bool" where
  "above Q 0 t = Q t"
| "above Q (Suc k) (WellSegment s) = False"
| "above Q (Suc k) (Well cs) = (cs \<noteq> [] \<and> list_all (above Q k) cs)"

text \<open>
  A parent of leaves after the two sampling stages of \<open>random_crop\<close>: it is empty, or each of
  its children is a new node that holds at least one crop.
\<close>

fun cropped_parent :: "node \<Rightarrow> bool" where
  "cropped_parent (WellSegment s) = False"
| "cropped_parent (Well cs) = list_all (\<lambda>c. regular 0 c \<and> leaves c \<noteq> []) cs"

section \<open>Properties of the batch reassembly\<close>

lemma unmasked_Nil [simp]: "unmasked [] ms = []"
  by (simp add: unmasked_def)

lemma unmasked_Cons [simp]:
  "unmasked (x # xs) (m # ms) = (if m then unmasked xs ms else x # unmasked xs ms)"
  by (simp add: unmasked_def)

lemma unmasked_is_skip: "unmasked rs (map is_skip rs) = filter (\<lambda>r. \<not> is_skip r) rs"
  by (induction rs) simp_all

lemma count_skips: "length (filter id (map is_skip rs)) = length (filter is_skip rs)"
  by (induction rs) simp_all

lemma no_failure_survivors:
  "\<not> list_ex is_exception (filter (\<lambda>r. \<not> is_skip r) rs) \<longleftrightarrow>
   (\<forall>r \<in> set rs. is_skip r \<or> \<not> is_exception r)"
  by (induction rs) auto

lemma unmasked_zip:
  "length ids = length rs \<Longrightarrow>
   unmasked ids (map is_skip rs) = map fst (filter (\<lambda>(i, r). \<not> is_skip r) (zip ids rs))"
  by (induction ids rs rule: list_induct2) auto

lemma successes_filter:
  "\<forall>r \<in> set rs. is_skip r \<or> \<not> is_exception r \<Longrightarrow>
   successes (filter (\<lambda>r. \<not> is_skip r) rs) = successes rs"
  by (induction rs rule: successes.induct) auto

lemma length_successes:
  "\<forall>r \<in> set rs. is_skip r \<or> \<not> is_exception r \<Longrightarrow>
   length (successes rs) = length rs - length (filter is_skip rs)"
proof (induction rs rule: successes.induct)
  case (2 w rs)
  have "length (filter is_skip rs) \<le> length rs" by simp
  with 2 show ?case by (simp add: Suc_diff_le)
qed auto

lemma zip_survivors:
  "length ids = length rs \<Longrightarrow> \<forall>r \<in> set rs. is_skip r \<or> \<not> is_exception r \<Longrightarrow>
   zip (unmasked ids (map is_skip rs)) (successes rs) = surviving (zip ids rs)"
proof (induction ids rs rule: list_induct2)
  case Nil
  then show ?case by simp
next
  case (Cons i ids r rs)
  then show ?case by (cases r) auto
qed

lemma length_unmasked:
  "length ids = length rs \<Longrightarrow>
   length (unmasked ids (map is_skip rs)) = length rs - length (filter is_skip rs)"
proof (induction ids rs rule: list_induct2)
  case Nil
  then show ?case by simp
next
  case (Cons i ids r rs)
  have "length (filter is_skip rs) \<le> length rs" by simp
  with Cons show ?case by (simp add: Suc_diff_le)
qed

lemma all_skips_count: "\<forall>r \<in> set rs. is_skip r \<Longrightarrow> length (filter is_skip rs) = length rs"
  by (induction rs) auto

lemma some_not_skip: "r \<in> set rs \<Longrightarrow> \<not> is_skip r \<Longrightarrow> length (filter is_skip rs) < length rs"
  by (induction rs) (auto simp: less_Suc_eq_le)

text \<open>
  Claim C1, as stated, fails when every root skips (\<open>K = N\<close>): the call then raises the
  batch-level skip and does not return a batch of \<open>N - K = 0\<close> roots.
\<close>

theorem all_skipped_batch_raises:
  "\<not> (\<exists>self'. filter_assemble (\<lambda>w. ''well'') \<lparr>index = [''a''], wells = [1 :: nat]\<rparr>
          [SkipWellException ''no logs''] = (None, self') \<and> length (wells self') = 1 - 1)"
  by (simp add: filter_assemble_def)

text \<open>
  Claim C1, amended: for a batch of \<open>N\<close> roots of which \<open>K < N\<close> raise the skip condition
  and none raises another exception, the call returns normally; afterwards the identifier
  index is the list of the identifiers whose roots did not skip, in their original order,
  the root array is the list of the returned roots in the same order, both have \<open>N - K\<close>
  entries, and entry \<open>i\<close> of the array is the result of the root of identifier \<open>i\<close>.
\<close>

theorem filter_assemble_skips_dropped:
  fixes self :: "('i, 'w) batch" and results :: "'w result list"
  assumes len: "length results = length (index self)"
    and no_failure: "\<forall>r \<in> set results. is_skip r \<or> (\<exists>w. r = Success w)"
    and not_all: "length (filter is_skip results) < length (index self)"
  shows "\<exists>self'. filter_assemble repr self results = (None, self')
      \<and> index self' = map fst (filter (\<lambda>(i, r). \<not> is_skip r) (zip (index self) results))
      \<and> wells self' = successes results
      \<and> length (index self') = length (index self) - length (filter is_skip results)
      \<and> length (wells self') = length (index self) - length (filter is_skip results)
      \<and> zip (index self') (wells self') = surviving (zip (index self) results)"
proof -
  have ok: "\<forall>r \<in> set results. is_skip r \<or> \<not> is_exception r"
    using no_failure by auto
  have ne: "results \<noteq> []" using len not_all by auto
  have nf: "\<not> any_action_failed (unmasked results (map is_skip results))"
    using ok by (simp add: any_action_failed_def unmasked_is_skip no_failure_survivors)
  have fa: "filter_assemble repr self results =
      (None, self\<lparr>index := unmasked (index self) (map is_skip results),
                   wells := successes (unmasked results (map is_skip results))\<rparr>)"
    using len not_all ne nf by (simp add: filter_assemble_def Let_def count_skips)
  have w: "successes (unmasked results (map is_skip results)) = successes results"
    using ok by (simp add: unmasked_is_skip successes_filter)
  have i: "unmasked (index self) (map is_skip results) =
      map fst (filter (\<lambda>(i, r). \<not> is_skip r) (zip (index self) results))"
    using len by (simp add: unmasked_zip)
  have z: "zip (unmasked (index self) (map is_skip results)) (successes results) =
      surviving (zip (index self) results)"
    using len ok by (simp add: zip_survivors)
  have l1: "length (unmasked (index self) (map is_skip results)) =
      length (index self) - length (filter is_skip results)"
    using len length_unmasked [of "index self" results] by simp
  have l2: "length (successes results) = length (index self) - length (filter is_skip results)"
    using len ok by (simp add: length_successes)
  show ?thesis
    unfolding fa w using i z l1 l2 by simp
qed

theorem filter_assemble_skips_dropped_witness:
  "\<exists>self'. filter_assemble (\<lambda>w. ''well'') \<lparr>index = [''a'', ''b'', ''c''], wells = [1 :: nat, 2, 3]\<rparr>
       [Success 10, SkipWellException ''no logs'', Success 30] = (None, self')
     \<and> index self' = [''a'', ''c''] \<and> wells self' = [10, 30]"
  using filter_assemble_skips_dropped [of "[Success 10, SkipWellException ''no logs'', Success 30]"
      "\<lparr>index = [''a'', ''b'', ''c''], wells = [1 :: nat, 2, 3]\<rparr>" "\<lambda>w. ''well''"]
  by auto

text \<open>
  Claim C2: when every one of the \<open>N \<ge> 1\<close> roots raises the skip condition, the call raises
  the batch-level skip condition with the message of the first root's skip, and the
  identifier index and the root array of the batch are left as they were.
\<close>

theorem filter_assemble_all_skip:
  fixes self :: "('i, 'w) batch"
  assumes len: "length results = length (index self)"
    and first: "results = SkipWellException m # rest"
    and all_skip: "\<forall>r \<in> set rest. is_skip r"
  shows "filter_assemble repr self results = (Some (SkipBatchException m), self)"
proof -
  have "\<forall>r \<in> set results. is_skip r" using first all_skip by simp
  then have "length (filter id (map is_skip results)) = length (index self)"
    using len by (simp add: count_skips all_skips_count)
  then show ?thesis using first by (simp add: filter_assemble_def)
qed

theorem filter_assemble_all_skip_witness:
  "filter_assemble (\<lambda>w. ''well'') \<lparr>index = [''a'', ''b''], wells = [1 :: nat, 2]\<rparr>
     [SkipWellException ''no core'', SkipWellException ''no logs'']
   = (Some (SkipBatchException ''no core''), \<lparr>index = [''a'', ''b''], wells = [1, 2]\<rparr>)"
  using filter_assemble_all_skip [of "[SkipWellException ''no core'', SkipWellException ''no logs'']"
      "\<lparr>index = [''a'', ''b''], wells = [1 :: nat, 2]\<rparr>" "''no core''" "[SkipWellException ''no logs'']"
      "\<lambda>w. ''well''"]
  by simp

text \<open>
  Claim C3: when at least one root raises an exception that is not the skip condition,
  whatever the other roots do, the call raises the fatal assembly error, and the
  identifier index and the root array of the batch are left as they were.
\<close>

theorem filter_assemble_failure:
  fixes self :: "('i, 'w) batch"
  assumes len: "length results = length (index self)"
    and failure: "OtherException m \<in> set results"
  shows "filter_assemble repr self results =
           (Some (RuntimeError ''Could not assemble the batch''), self)"
proof -
  have lt: "length (filter is_skip results) < length results"
    using failure some_not_skip [of "OtherException m" results] by simp
  have ne: "results \<noteq> []" using failure by auto
  have "OtherException m \<in> set (filter (\<lambda>r. \<not> is_skip r) results)"
    using failure by simp
  then have "list_ex is_exception (filter (\<lambda>r. \<not> is_skip r) results)"
    unfolding list_ex_iff by (rule bexI [rotated]) simp
  then have "any_action_failed (unmasked results (map is_skip results))"
    by (simp add: any_action_failed_def unmasked_is_skip)
  then show ?thesis using lt ne len
    by (simp add: filter_assemble_def Let_def count_skips)
qed

theorem filter_assemble_failure_witness:
  "filter_assemble (\<lambda>w. ''well'') \<lparr>index = [''a'', ''b'', ''c''], wells = [1 :: nat, 2, 3]\<rparr>
     [Success 10, SkipWellException ''no logs'', OtherException ''boom'']
   = (Some (RuntimeError ''Could not assemble the batch''),
      \<lparr>index = [''a'', ''b'', ''c''], wells = [1, 2, 3]\<rparr>)"
  using filter_assemble_failure [of "[Success 10, SkipWellException ''no logs'', OtherException ''boom'']"
      "\<lparr>index = [''a'', ''b'', ''c''], wells = [1 :: nat, 2, 3]\<rparr>" "''boom''" "\<lambda>w. ''well''"]
  by simp

section \<open>Comprehensions that may raise\<close>

lemma collect_map_Inr: "collect (map Inr xs) = Inr xs"
  by (induction xs) simp_all

lemma collect_InrD: "collect rs = Inr xs \<Longrightarrow> rs = map Inr xs"
  by (induction rs arbitrary: xs) (auto split: sum.splits)

lemma collect_map_eq:
  "(\<And>x. x \<in> set xs \<Longrightarrow> f x = Inr (g x)) \<Longrightarrow> collect (map f xs) = Inr (map g xs)"
  by (induction xs) simp_all

lemma filter_e_eq:
  "(\<And>x. x \<in> set xs \<Longrightarrow> p x = Inr (q x)) \<Longrightarrow> filter_e p xs = Inr (filter q xs)"
  by (induction xs) simp_all

section \<open>Derived quantities\<close>

lemma fold_min_Min: "fold min xs (x :: real) = Min (set (x # xs))"
  by (rule Min.set_eq_fold [symmetric])

lemma fold_max_Max: "fold max xs (x :: real) = Max (set (x # xs))"
  by (rule Max.set_eq_fold [symmetric])

lemma py_min_eq: "vs \<noteq> [] \<Longrightarrow> py_min vs = Inr (Min (set vs))"
  by (cases vs) (simp_all only: py_min.simps fold_min_Min, simp)

lemma py_max_eq: "vs \<noteq> [] \<Longrightarrow> py_max vs = Inr (Max (set vs))"
  by (cases vs) (simp_all only: py_max.simps fold_max_Max, simp)

lemma nonempty_subnodes: "nonempty t \<Longrightarrow> d \<in> set (subnodes t) \<Longrightarrow> nonempty d"
  by (induction t) (auto simp: list_all_iff)

lemma depth_from_nonempty: "nonempty t \<Longrightarrow> depth_from t = Inr (lo_of t)"
proof (induction t)
  case (WellSegment s)
  then show ?case by simp
next
  case (Well cs)
  then have "collect (map depth_from cs) = Inr (map lo_of cs)"
    by (intro collect_map_eq) (auto simp: list_all_iff)
  with Well.prems show ?case by (simp add: py_min_eq)
qed

lemma depth_to_nonempty: "nonempty t \<Longrightarrow> depth_to t = Inr (hi_of t)"
proof (induction t)
  case (WellSegment s)
  then show ?case by simp
next
  case (Well cs)
  then have "collect (map depth_to cs) = Inr (map hi_of cs)"
    by (intro collect_map_eq) (auto simp: list_all_iff)
  with Well.prems show ?case by (simp add: py_max_eq)
qed

lemma encloses:
  "nonempty t \<Longrightarrow> d \<in> set (subnodes t) \<Longrightarrow> lo_of t \<le> lo_of d \<and> hi_of d \<le> hi_of t"
proof (induction t)
  case (WellSegment s)
  then show ?case by simp
next
  case (Well cs)
  show ?case
  proof (cases "d = Well cs")
    case True
    then show ?thesis by simp
  next
    case False
    with Well.prems obtain c where c: "c \<in> set cs" "d \<in> set (subnodes c)" by auto
    then have ne: "nonempty c" using Well.prems by (simp add: list_all_iff)
    from Well.IH [OF c(1) ne c(2)] have "lo_of c \<le> lo_of d" "hi_of d \<le> hi_of c" by simp_all
    moreover have "Min (set (map lo_of cs)) \<le> lo_of c" using c(1) by (intro Min_le) auto
    moreover have "hi_of c \<le> Max (set (map hi_of cs))" using c(1) by (intro Max_ge) auto
    ultimately show ?thesis by simp
  qed
qed

text \<open>
  Claim C5, as stated, fails for a node whose own children are not empty but which has an
  empty node below it: \<open>crop\<close> leaves such a node behind for a leaf that yields no crop (it
  does not prune), and \<open>depth_from\<close> of the root then raises \<open>ValueError\<close> instead of
  returning a minimum.
\<close>

theorem depth_from_fails_above_empty_node:
  "crop (\<lambda>s. []) (Well [WellSegment \<lparr>seg_depth_from = 0, seg_depth_to = 1\<rparr>]) = Inr (Well [Well []])
   \<and> depth_from (Well [Well []]) = Inl ValueError
   \<and> depth_to (Well [Well []]) = Inl ValueError
   \<and> length_well (Well [Well []]) = Inl ValueError"
proof (intro conjI)
  show "crop (\<lambda>s. []) (Well [WellSegment \<lparr>seg_depth_from = 0, seg_depth_to = 1\<rparr>]) = Inr (Well [Well []])"
    by (simp add: crop_def assign_wells_def has_segments_def)
  show "depth_from (Well [Well []]) = Inl ValueError" by simp
  show "depth_to (Well [Well []]) = Inl ValueError" by simp
  show "length_well (Well [Well []]) = Inl ValueError" by simp
qed

text \<open>
  Claim C5, amended: in a tree in which no node is empty, for every node \<open>Well cs\<close> of the
  tree, the children have a \<open>depth_from\<close> and a \<open>depth_to\<close>, \<open>depth_from\<close> of the node is the
  minimum of the former, \<open>depth_to\<close> the maximum of the latter and \<open>length\<close> their difference;
  and every descendant of the node has a depth range that lies within the range of the
  node.
\<close>

theorem derived_bounds:
  assumes ne: "nonempty t" and d: "Well cs \<in> set (subnodes t)"
  shows "map depth_from cs = map (\<lambda>c. Inr (lo_of c)) cs
    \<and> map depth_to cs = map (\<lambda>c. Inr (hi_of c)) cs
    \<and> depth_from (Well cs) = Inr (Min (set (map lo_of cs)))
    \<and> depth_to (Well cs) = Inr (Max (set (map hi_of cs)))
    \<and> length_well (Well cs) = Inr (Max (set (map hi_of cs)) - Min (set (map lo_of cs)))
    \<and> (\<forall>x \<in> set (subnodes (Well cs)).
          depth_from x = Inr (lo_of x) \<and> depth_to x = Inr (hi_of x)
        \<and> Min (set (map lo_of cs)) \<le> lo_of x \<and> hi_of x \<le> Max (set (map hi_of cs)))"
proof -
  have n: "nonempty (Well cs)" using ne d by (rule nonempty_subnodes)
  then have c: "\<And>c. c \<in> set cs \<Longrightarrow> nonempty c" by (simp add: list_all_iff)
  have 1: "map depth_from cs = map (\<lambda>c. Inr (lo_of c)) cs"
    using c by (simp add: depth_from_nonempty)
  have 2: "map depth_to cs = map (\<lambda>c. Inr (hi_of c)) cs"
    using c by (simp add: depth_to_nonempty)
  have 3: "depth_from (Well cs) = Inr (Min (set (map lo_of cs)))"
    using depth_from_nonempty [OF n] by simp
  have 4: "depth_to (Well cs) = Inr (Max (set (map hi_of cs)))"
    using depth_to_nonempty [OF n] by simp
  have 5: "length_well (Well cs) = Inr (Max (set (map hi_of cs)) - Min (set (map lo_of cs)))"
    using 3 4 by simp
  have 6: "\<forall>x \<in> set (subnodes (Well cs)).
          depth_from x = Inr (lo_of x) \<and> depth_to x = Inr (hi_of x)
        \<and> Min (set (map lo_of cs)) \<le> lo_of x \<and> hi_of x \<le> Max (set (map hi_of cs))"
  proof
    fix x assume x: "x \<in> set (subnodes (Well cs))"
    then have "nonempty x" using n nonempty_subnodes by blast
    then have "depth_from x = Inr (lo_of x)" "depth_to x = Inr (hi_of x)"
      by (simp_all add: depth_from_nonempty depth_to_nonempty)
    moreover have "lo_of (Well cs) \<le> lo_of x \<and> hi_of x \<le> hi_of (Well cs)"
      using encloses [OF n x] .
    ultimately show "depth_from x = Inr (lo_of x) \<and> depth_to x = Inr (hi_of x)
        \<and> Min (set (map lo_of cs)) \<le> lo_of x \<and> hi_of x \<le> Max (set (map hi_of cs))" by simp
  qed
  show ?thesis using 1 2 3 4 5 6 by blast
qed

theorem derived_bounds_witness:
  "depth_from (Well [Well [WellSegment \<lparr>seg_depth_from = 2, seg_depth_to = 5\<rparr>,
                          WellSegment \<lparr>seg_depth_from = 0, seg_depth_to = 1\<rparr>],
                    Well [WellSegment \<lparr>seg_depth_from = 1, seg_depth_to = 3\<rparr>]]) = Inr 0
   \<and> depth_to (Well [Well [WellSegment \<lparr>seg_depth_from = 2, seg_depth_to = 5\<rparr>,
                          WellSegment \<lparr>seg_depth_from = 0, seg_depth_to = 1\<rparr>],
                    Well [WellSegment \<lparr>seg_depth_from = 1, seg_depth_to = 3\<rparr>]]) = Inr 5
   \<and> length_well (Well [Well [WellSegment \<lparr>seg_depth_from = 2, seg_depth_to = 5\<rparr>,
                          WellSegment \<lparr>seg_depth_from = 0, seg_depth_to = 1\<rparr>],
                    Well [WellSegment \<lparr>seg_depth_from = 1, seg_depth_to = 3\<rparr>]]) = Inr 5"
  using derived_bounds [of
      "Well [Well [WellSegment \<lparr>seg_depth_from = 2, seg_depth_to = 5\<rparr>,
                   WellSegment \<lparr>seg_depth_from = 0, seg_depth_to = 1\<rparr>],
             Well [WellSegment \<lparr>seg_depth_from = 1, seg_depth_to = 3\<rparr>]]"
      "[Well [WellSegment \<lparr>seg_depth_from = 2, seg_depth_to = 5\<rparr>,
              WellSegment \<lparr>seg_depth_from = 0, seg_depth_to = 1\<rparr>],
        Well [WellSegment \<lparr>seg_depth_from = 1, seg_depth_to = 3\<rparr>]]"]
  by simp

text \<open>
  Claim C10: on a node without children the test \<open>_has_segments\<close> is vacuously true, so
  \<open>tree_depth\<close> is 2 and \<open>n_segments\<close> is 0, while \<open>depth_from\<close>, \<open>depth_to\<close> and \<open>length\<close>
  raise \<open>ValueError\<close> (the minimum or maximum of an empty list); nothing guards the
  accessors against this state.
\<close>

theorem accessors_on_empty_node:
  "has_segments [] \<and> tree_depth (Well []) = Inr 2 \<and> n_segments (Well []) = Inr 0
   \<and> depth_from (Well []) = Inl ValueError \<and> depth_to (Well []) = Inl ValueError
   \<and> length_well (Well []) = Inl ValueError"
proof (intro conjI)
  show "has_segments []" by (simp add: has_segments_def)
  show "tree_depth (Well []) = Inr 2" by (simp add: has_segments_def)
  show "n_segments (Well []) = Inr 0" by (simp add: has_segments_def n_segments_def)
  show "depth_from (Well []) = Inl ValueError" by simp
  show "depth_to (Well []) = Inl ValueError" by simp
  show "length_well (Well []) = Inl ValueError" by simp
qed

section \<open>Trees of uniform depth: \<open>tree_depth\<close> and \<open>iter_level\<close>\<close>

declare iter_level.simps [simp del]

lemma regular_is_Well: "regular k t \<Longrightarrow> \<exists>cs. t = Well cs"
  by (cases t) simp_all

lemma regular_not_segments:
  "\<not> has_segments cs" if "cs \<noteq> []" "list_all (regular k) cs"
proof (cases cs)
  case Nil
  then show ?thesis using that by simp
next
  case (Cons c rest)
  with that have "regular k c" by simp
  then obtain ds where "c = Well ds" using regular_is_Well by blast
  then show ?thesis using Cons by (simp add: has_segments_def)
qed

lemma tree_depth_regular: "regular k t \<Longrightarrow> tree_depth t = Inr (int k + 2)"
proof (induction k arbitrary: t)
  case 0
  then show ?case by (cases t) simp_all
next
  case (Suc k)
  then obtain cs where t: "t = Well cs" using regular_is_Well by blast
  with Suc.prems obtain c rest where cs: "cs = c # rest" by (cases cs) auto
  have "regular k c" using Suc.prems t cs by simp
  then have "tree_depth c = Inr (int k + 2)" by (rule Suc.IH)
  moreover have "\<not> has_segments cs" using Suc.prems t regular_not_segments [of cs k] by simp
  ultimately show ?case using t cs by simp
qed

lemma tree_depth_ge_2: "tree_depth t = Inr d \<Longrightarrow> 2 \<le> d"
proof (induction t arbitrary: d)
  case (WellSegment s)
  then show ?case by simp
next
  case (Well cs)
  show ?case
  proof (cases "has_segments cs")
    case True
    with Well.prems show ?thesis by simp
  next
    case False
    then obtain c rest where cs: "cs = c # rest" by (cases cs) (auto simp: has_segments_def)
    with Well.prems False obtain d' where "tree_depth c = Inr d'" "d = d' + 1"
      by (auto split: sum.splits)
    with Well.IH [of c d'] cs show ?thesis by simp
  qed
qed

lemma iter_level_nonneg:
  assumes "tree_depth (Well cs) = Inr d"
  shows "iter_level (Well cs) 0 = Inr [Well cs]"
    and "iter_level (Well cs) 1 = Inr cs"
    and "2 \<le> l \<Longrightarrow> l \<le> d \<Longrightarrow> iter_level (Well cs) l =
          (case collect (map (\<lambda>c. iter_level c (l - 1)) cs) of
             Inl e \<Rightarrow> Inl e | Inr xss \<Rightarrow> Inr (concat xss))"
    and "d < l \<Longrightarrow> iter_level (Well cs) l = Inl ValueError"
  using assms tree_depth_ge_2 [OF assms] by (simp_all add: iter_level.simps(2) del: tree_depth.simps)

lemma iter_level_negative:
  assumes "tree_depth (Well cs) = Inr d" and "level < 0"
  shows "level < - d \<Longrightarrow> iter_level (Well cs) level = Inl ValueError"
    and "- d \<le> level \<Longrightarrow> iter_level (Well cs) level = iter_level (Well cs) (d + level)"
  using assms by (simp_all add: iter_level.simps(2) [of cs level] iter_level.simps(2) [of cs "d + level"] del: tree_depth.simps)

lemma concat_level_nodes_0 [simp]: "concat (map (level_nodes 0) cs) = cs"
  by (induction cs) simp_all

lemma iter_level_regular:
  "regular k t \<Longrightarrow> l \<le> k + 1 \<Longrightarrow> iter_level t (int l) = Inr (level_nodes l t)"
proof (induction k arbitrary: t l)
  case 0
  then obtain cs where t: "t = Well cs" using regular_is_Well by blast
  have d: "tree_depth (Well cs) = Inr 2" using tree_depth_regular [OF "0.prems"(1)] t by simp
  from "0.prems"(2) have "l = 0 \<or> l = Suc 0" by auto
  then show ?case using iter_level_nonneg(1,2) [OF d] t by auto
next
  case (Suc k)
  then obtain cs where t: "t = Well cs" using regular_is_Well by blast
  have d: "tree_depth (Well cs) = Inr (int (Suc k) + 2)"
    using tree_depth_regular [OF Suc.prems(1)] t by simp
  consider "l = 0" | "l = Suc 0" | l' where "l = Suc (Suc l')" by (cases l rule: nat.exhaust; cases "l - 1") auto
  then show ?case
  proof cases
    case 1
    then show ?thesis using iter_level_nonneg(1) [OF d] t by simp
  next
    case 2
    then show ?thesis using iter_level_nonneg(2) [OF d] t by simp
  next
    case 3
    have le: "Suc l' \<le> k + 1" using 3 Suc.prems(2) by simp
    have "iter_level c (int (Suc l')) = Inr (level_nodes (Suc l') c)" if "c \<in> set cs" for c
    proof -
      have "regular k c" using that Suc.prems(1) t by (simp add: list_all_iff)
      then show ?thesis using le by (rule Suc.IH)
    qed
    then have "collect (map (\<lambda>c. iter_level c (int (Suc l'))) cs) = Inr (map (level_nodes (Suc l')) cs)"
      by (rule collect_map_eq)
    moreover have "int l - 1 = int (Suc l')" using 3 by simp
    moreover have "2 \<le> int l" "int l \<le> int (Suc k) + 2" using 3 Suc.prems(2) by simp_all
    ultimately show ?thesis using iter_level_nonneg(3) [OF d, of "int l"] t 3 by simp
  qed
qed



lemma iter_level_level_nodes:
  "iter_level t (int l) = Inr xs \<Longrightarrow> xs = level_nodes l t"
proof (induction l arbitrary: t xs)
  case 0
  then show ?case by (cases t) (auto simp: iter_level.simps split: sum.splits if_splits)
next
  case (Suc l)
  show ?case
  proof (cases t)
    case (WellSegment s)
    then show ?thesis using Suc.prems by (simp add: iter_level.simps)
  next
    case (Well cs)
    from Suc.prems Well obtain d where d: "tree_depth (Well cs) = Inr d"
      by (cases "tree_depth (Well cs)") (simp_all add: iter_level.simps(2) [of cs] del: tree_depth.simps)
    show ?thesis
    proof (cases l)
      case 0
      then show ?thesis using Suc.prems Well d iter_level_nonneg(2) [OF d] by simp
    next
      case (Suc l')
      have le: "int (Suc l) \<le> d"
      proof (rule ccontr)
        assume "\<not> int (Suc l) \<le> d"
        then have "iter_level (Well cs) (int (Suc l)) = Inl ValueError"
          using iter_level_nonneg(4) [OF d, of "int (Suc l)"] by simp
        then show False using Suc.prems Well by simp
      qed
      have "iter_level (Well cs) (int (Suc l)) =
          (case collect (map (\<lambda>c. iter_level c (int (Suc l) - 1)) cs) of
             Inl e \<Rightarrow> Inl e | Inr xss \<Rightarrow> Inr (concat xss))"
        using le Suc by (intro iter_level_nonneg(3) [OF d]) simp_all
      moreover have "int (Suc l) - 1 = int l" by simp
      ultimately obtain xss where xss: "collect (map (\<lambda>c. iter_level c (int l)) cs) = Inr xss"
        and xs: "xs = concat xss"
        using Suc.prems Well by (auto split: sum.splits)
      from collect_InrD [OF xss] have m: "map (\<lambda>c. iter_level c (int l)) cs = map Inr xss" .
      have "xss = map (level_nodes l) cs"
      proof (rule nth_equalityI)
        show "length xss = length (map (level_nodes l) cs)"
          using m by (metis length_map)
        fix i assume i: "i < length xss"
        then have ic: "i < length cs" using m by (metis length_map)
        have "map (\<lambda>c. iter_level c (int l)) cs ! i = map Inr xss ! i" using m by simp
        then have "iter_level (cs ! i) (int l) = Inr (xss ! i)" using i ic by simp
        then have "xss ! i = level_nodes l (cs ! i)" by (rule Suc.IH)
        then show "xss ! i = map (level_nodes l) cs ! i" using ic by simp
      qed
      then show ?thesis using xs Well by simp
    qed
  qed
qed

lemma iter_level_minus_2_level_nodes:
  assumes "iter_level (Well cs) (- 2) = Inr ws" and d: "tree_depth (Well cs) = Inr d"
  shows "ws = level_nodes (nat (d - 2)) (Well cs)"
proof -
  have 2: "2 \<le> d" using d by (rule tree_depth_ge_2)
  have "iter_level (Well cs) (- 2) = iter_level (Well cs) (d + - 2)"
    by (rule iter_level_negative(2) [OF d]) (use 2 in simp_all)
  moreover have "d + - 2 = int (nat (d - 2))" using 2 by simp
  ultimately have "iter_level (Well cs) (int (nat (d - 2))) = Inr ws" using assms(1) by simp
  then show ?thesis by (rule iter_level_level_nodes)
qed


lemma level_nodes_leaves: "regular k t \<Longrightarrow> level_nodes (Suc k) t = map WellSegment (leaves t)"
proof (induction k arbitrary: t)
  case 0
  then obtain cs where t: "t = Well cs" using regular_is_Well by blast
  have "has_segments cs \<Longrightarrow> cs = map WellSegment (concat (map leaves cs))"
  proof (induction cs)
    case Nil
    then show ?case by simp
  next
    case (Cons c cs)
    then show ?case by (cases c) (simp_all add: has_segments_def)
  qed
  then show ?case using 0 t by simp
next
  case (Suc k)
  then obtain cs where t: "t = Well cs" using regular_is_Well by blast
  have "map (level_nodes (Suc k)) cs = map (\<lambda>c. map WellSegment (leaves c)) cs"
    using Suc t by (simp add: list_all_iff)
  then have "concat (map (level_nodes (Suc k)) cs) = concat (map (\<lambda>c. map WellSegment (leaves c)) cs)"
    by (rule arg_cong)
  then show ?case using t by (simp add: map_concat comp_def)
qed

lemma level_nodes_regular:
  "regular k t \<Longrightarrow> l \<le> k \<Longrightarrow> list_all (regular (k - l)) (level_nodes l t)"
proof (induction l arbitrary: k t)
  case 0
  then show ?case by simp
next
  case (Suc l)
  then obtain k' where k: "k = Suc k'" by (cases k) auto
  from Suc.prems obtain cs where t: "t = Well cs" using regular_is_Well by blast
  have "list_all (regular (k' - l)) (level_nodes l c)" if "c \<in> set cs" for c
    using that Suc.IH [of k' c] Suc.prems k t by (simp add: list_all_iff)
  then show ?case using k t by (simp add: list_all_iff)
qed

lemma regular_0_leaf_parent: "regular 0 t \<Longrightarrow> leaf_parent t"
  by (cases t) simp_all

lemma parents_of_leaves: "regular k t \<Longrightarrow> list_all leaf_parent (level_nodes k t)"
  using level_nodes_regular [of k t k] by (auto simp: list_all_iff intro: regular_0_leaf_parent)

lemma iter_level_minus_1:
  assumes "regular k t"
  shows "iter_level t (- 1) = Inr (map WellSegment (leaves t))"
proof -
  obtain cs where t: "t = Well cs" using assms regular_is_Well by blast
  have d: "tree_depth (Well cs) = Inr (int k + 2)" using tree_depth_regular [OF assms] t by simp
  have "iter_level (Well cs) (- 1) = iter_level (Well cs) (int k + 2 + - 1)"
    by (rule iter_level_negative(2) [OF d]) simp_all
  also have "int k + 2 + - 1 = int (Suc k)" by simp
  also have "iter_level (Well cs) (int (Suc k)) = Inr (level_nodes (Suc k) (Well cs))"
    using iter_level_regular [OF assms, of "Suc k"] t by simp
  finally show ?thesis using level_nodes_leaves [OF assms] t by simp
qed

lemma iter_level_minus_2:
  assumes "regular k t"
  shows "iter_level t (- 2) = Inr (level_nodes k t)"
proof -
  obtain cs where t: "t = Well cs" using assms regular_is_Well by blast
  have d: "tree_depth (Well cs) = Inr (int k + 2)" using tree_depth_regular [OF assms] t by simp
  have "iter_level (Well cs) (- 2) = iter_level (Well cs) (int k + 2 + - 2)"
    by (rule iter_level_negative(2) [OF d]) simp_all
  also have "int k + 2 + - 2 = int k" by simp
  also have "iter_level (Well cs) (int k) = Inr (level_nodes k (Well cs))"
    using iter_level_regular [OF assms, of k] t by simp
  finally show ?thesis using t by simp
qed

lemma n_segments_regular: "regular k t \<Longrightarrow> n_segments t = Inr (length (leaves t))"
  by (simp add: n_segments_def iter_level_minus_1)

text \<open>
  On a node whose \<open>tree_depth\<close> is \<open>d\<close>, \<open>iter_level(level)\<close> first replaces a negative level
  by \<open>d + level\<close>; it raises \<open>ValueError\<close> when the level is then negative or greater than
  \<open>d\<close> (that is, when \<open>level\<close> is below \<open>-d\<close> or above \<open>d\<close>); it returns the node itself at
  level 0, the list of its children at level 1, and otherwise the concatenation, in order, of
  \<open>iter_level(level - 1)\<close> of the children. In a tree of uniform depth, level \<open>-1\<close> is the list
  of the leaves and level \<open>-2\<close> the list of the parents of leaves.
\<close>

lemma iter_level_spec:
  assumes d: "tree_depth (Well cs) = Inr d"
  shows "(let n = (if 0 \<le> level then level else d + level) in
          iter_level (Well cs) level =
            (if n < 0 \<or> d < n then Inl ValueError
             else if n = 0 then Inr [Well cs]
             else if n = 1 then Inr cs
             else (case collect (map (\<lambda>child. iter_level child (n - 1)) cs) of
                     Inl e \<Rightarrow> Inl e
                   | Inr xss \<Rightarrow> Inr (concat xss))))
       \<and> (level < - d \<or> d < level \<longrightarrow> iter_level (Well cs) level = Inl ValueError)
       \<and> (regular k (Well cs) \<longrightarrow>
             d = int k + 2
           \<and> iter_level (Well cs) (- 1) = Inr (map WellSegment (leaves (Well cs)))
           \<and> iter_level (Well cs) (- 2) = Inr (level_nodes k (Well cs))
           \<and> list_all leaf_parent (level_nodes k (Well cs)))"
proof (intro conjI impI)
  show "let n = (if 0 \<le> level then level else d + level) in
          iter_level (Well cs) level =
            (if n < 0 \<or> d < n then Inl ValueError
             else if n = 0 then Inr [Well cs]
             else if n = 1 then Inr cs
             else (case collect (map (\<lambda>child. iter_level child (n - 1)) cs) of
                     Inl e \<Rightarrow> Inl e
                   | Inr xss \<Rightarrow> Inr (concat xss)))"
    using d by (simp add: iter_level.simps(2) Let_def del: tree_depth.simps)
next
  assume "level < - d \<or> d < level"
  then show "iter_level (Well cs) level = Inl ValueError"
    using d tree_depth_ge_2 [OF d] iter_level_negative(1) [OF d, of level] iter_level_nonneg(4) [OF d, of level]
    by (cases "level < 0") auto
next
  assume r: "regular k (Well cs)"
  show "d = int k + 2" using tree_depth_regular [OF r] d by simp
  show "iter_level (Well cs) (- 1) = Inr (map WellSegment (leaves (Well cs)))"
    using r by (rule iter_level_minus_1)
  show "iter_level (Well cs) (- 2) = Inr (level_nodes k (Well cs))"
    using r by (rule iter_level_minus_2)
  show "list_all leaf_parent (level_nodes k (Well cs))"
    using r by (rule parents_of_leaves)
qed

lemma iter_level_spec_example:
  "iter_level (Well [Well [WellSegment \<lparr>seg_depth_from = 0, seg_depth_to = 1\<rparr>,
                           WellSegment \<lparr>seg_depth_from = 1, seg_depth_to = 2\<rparr>],
                     Well [WellSegment \<lparr>seg_depth_from = 2, seg_depth_to = 3\<rparr>]]) (- 1)
     = Inr [WellSegment \<lparr>seg_depth_from = 0, seg_depth_to = 1\<rparr>,
            WellSegment \<lparr>seg_depth_from = 1, seg_depth_to = 2\<rparr>,
            WellSegment \<lparr>seg_depth_from = 2, seg_depth_to = 3\<rparr>]
   \<and> iter_level (Well [Well [WellSegment \<lparr>seg_depth_from = 0, seg_depth_to = 1\<rparr>,
                           WellSegment \<lparr>seg_depth_from = 1, seg_depth_to = 2\<rparr>],
                     Well [WellSegment \<lparr>seg_depth_from = 2, seg_depth_to = 3\<rparr>]]) (- 2)
     = Inr [Well [WellSegment \<lparr>seg_depth_from = 0, seg_depth_to = 1\<rparr>,
                  WellSegment \<lparr>seg_depth_from = 1, seg_depth_to = 2\<rparr>],
            Well [WellSegment \<lparr>seg_depth_from = 2, seg_depth_to = 3\<rparr>]]
   \<and> iter_level (Well [Well [WellSegment \<lparr>seg_depth_from = 0, seg_depth_to = 1\<rparr>,
                           WellSegment \<lparr>seg_depth_from = 1, seg_depth_to = 2\<rparr>],
                     Well [WellSegment \<lparr>seg_depth_from = 2, seg_depth_to = 3\<rparr>]]) 4
     = Inl ValueError"
  using iter_level_spec [of
      "[Well [WellSegment \<lparr>seg_depth_from = 0, seg_depth_to = 1\<rparr>,
              WellSegment \<lparr>seg_depth_from = 1, seg_depth_to = 2\<rparr>],
        Well [WellSegment \<lparr>seg_depth_from = 2, seg_depth_to = 3\<rparr>]]" 3 4 1]
  by (simp add: has_segments_def)

text \<open>
  Claim C7 (a negative level is translated by adding \<open>tree_depth\<close>, so that \<open>-1\<close> addresses
  the leaves and \<open>-2\<close> the parents of leaves): the code breaks it on a tree whose first child
  is empty while another child is deeper. \<open>crop\<close> returns such a tree when the first parent of
  leaves has no leaf. \<open>tree_depth\<close>, read off the empty first child, is 3, one less than the
  depth below the second child. So \<open>iter_level(-1)\<close> is \<open>iter_level(2)\<close> and returns the two
  parents of leaves, none of them a leaf, and \<open>n_segments\<close> is 2 while the tree has four
  leaves; \<open>iter_level(-2)\<close> returns the children of the root, of which the second is not a
  parent of leaves; the leaves are what \<open>iter_level(3)\<close> returns.
\<close>

theorem iter_level_misses_leaves:
  "crop (\<lambda>s. [s, s])
       (Well [Well [], Well [WellSegment \<lparr>seg_depth_from = 0, seg_depth_to = 5\<rparr>,
                             WellSegment \<lparr>seg_depth_from = 5, seg_depth_to = 7\<rparr>]])
     = Inr (Well [Well [], Well [Well [WellSegment \<lparr>seg_depth_from = 0, seg_depth_to = 5\<rparr>,
                                       WellSegment \<lparr>seg_depth_from = 0, seg_depth_to = 5\<rparr>],
                                 Well [WellSegment \<lparr>seg_depth_from = 5, seg_depth_to = 7\<rparr>,
                                       WellSegment \<lparr>seg_depth_from = 5, seg_depth_to = 7\<rparr>]]])
   \<and> tree_depth (Well [Well [], Well [Well [WellSegment \<lparr>seg_depth_from = 0, seg_depth_to = 5\<rparr>,
                                             WellSegment \<lparr>seg_depth_from = 0, seg_depth_to = 5\<rparr>],
                                       Well [WellSegment \<lparr>seg_depth_from = 5, seg_depth_to = 7\<rparr>,
                                             WellSegment \<lparr>seg_depth_from = 5, seg_depth_to = 7\<rparr>]]])
     = Inr 3
   \<and> iter_level (Well [Well [], Well [Well [WellSegment \<lparr>seg_depth_from = 0, seg_depth_to = 5\<rparr>,
                                             WellSegment \<lparr>seg_depth_from = 0, seg_depth_to = 5\<rparr>],
                                       Well [WellSegment \<lparr>seg_depth_from = 5, seg_depth_to = 7\<rparr>,
                                             WellSegment \<lparr>seg_depth_from = 5, seg_depth_to = 7\<rparr>]]]) (- 1)
     = Inr [Well [WellSegment \<lparr>seg_depth_from = 0, seg_depth_to = 5\<rparr>,
                  WellSegment \<lparr>seg_depth_from = 0, seg_depth_to = 5\<rparr>],
            Well [WellSegment \<lparr>seg_depth_from = 5, seg_depth_to = 7\<rparr>,
                  WellSegment \<lparr>seg_depth_from = 5, seg_depth_to = 7\<rparr>]]
   \<and> n_segments (Well [Well [], Well [Well [WellSegment \<lparr>seg_depth_from = 0, seg_depth_to = 5\<rparr>,
                                             WellSegment \<lparr>seg_depth_from = 0, seg_depth_to = 5\<rparr>],
                                       Well [WellSegment \<lparr>seg_depth_from = 5, seg_depth_to = 7\<rparr>,
                                             WellSegment \<lparr>seg_depth_from = 5, seg_depth_to = 7\<rparr>]]])
     = Inr 2
   \<and> iter_level (Well [Well [], Well [Well [WellSegment \<lparr>seg_depth_from = 0, seg_depth_to = 5\<rparr>,
                                             WellSegment \<lparr>seg_depth_from = 0, seg_depth_to = 5\<rparr>],
                                       Well [WellSegment \<lparr>seg_depth_from = 5, seg_depth_to = 7\<rparr>,
                                             WellSegment \<lparr>seg_depth_from = 5, seg_depth_to = 7\<rparr>]]]) (- 2)
     = Inr [Well [], Well [Well [WellSegment \<lparr>seg_depth_from = 0, seg_depth_to = 5\<rparr>,
                                 WellSegment \<lparr>seg_depth_from = 0, seg_depth_to = 5\<rparr>],
                           Well [WellSegment \<lparr>seg_depth_from = 5, seg_depth_to = 7\<rparr>,
                                 WellSegment \<lparr>seg_depth_from = 5, seg_depth_to = 7\<rparr>]]]
   \<and> iter_level (Well [Well [], Well [Well [WellSegment \<lparr>seg_depth_from = 0, seg_depth_to = 5\<rparr>,
                                             WellSegment \<lparr>seg_depth_from = 0, seg_depth_to = 5\<rparr>],
                                       Well [WellSegment \<lparr>seg_depth_from = 5, seg_depth_to = 7\<rparr>,
                                             WellSegment \<lparr>seg_depth_from = 5, seg_depth_to = 7\<rparr>]]]) 3
     = Inr [WellSegment \<lparr>seg_depth_from = 0, seg_depth_to = 5\<rparr>,
            WellSegment \<lparr>seg_depth_from = 0, seg_depth_to = 5\<rparr>,
            WellSegment \<lparr>seg_depth_from = 5, seg_depth_to = 7\<rparr>,
            WellSegment \<lparr>seg_depth_from = 5, seg_depth_to = 7\<rparr>]"
  by (simp add: crop_def assign_wells_def iter_level.simps n_segments_def has_segments_def)

section \<open>Pruning\<close>

declare prune.simps [simp del]

lemma keeps_segment: "is_segment c \<Longrightarrow> keeps c = Inr True"
  by (simp add: keeps_def)

lemma keeps_regular: "regular k c \<Longrightarrow> keeps c = Inr (leaves c \<noteq> [])"
proof -
  assume r: "regular k c"
  then have "\<not> is_segment c" by (cases c) simp_all
  then show ?thesis using n_segments_regular [OF r] by (simp add: keeps_def)
qed

lemma has_segments_iff: "has_segments cs \<longleftrightarrow> (\<forall>c \<in> set cs. is_segment c)"
  by (simp add: has_segments_def list_all_iff)

lemma sprune_segment: "is_segment c \<Longrightarrow> sprune c = c"
  by (cases c) simp_all

lemma prune_regular: "regular k t \<Longrightarrow> prune t = Inr (sprune t)"
proof (induction k arbitrary: t)
  case 0
  then obtain cs where t: "t = Well cs" using regular_is_Well by blast
  with 0 have seg: "\<And>c. c \<in> set cs \<Longrightarrow> is_segment c" by (simp add: has_segments_iff)
  have f: "filter_e keeps cs = Inr (filter (\<lambda>c. True) cs)"
    by (rule filter_e_eq) (simp add: seg keeps_segment)
  have c: "collect (map (\<lambda>well. if is_segment well then Inr well else prune well) cs) = Inr (map (\<lambda>c. c) cs)"
    by (rule collect_map_eq) (simp add: seg)
  have "filter (\<lambda>c. is_segment c \<or> leaves c \<noteq> []) cs = cs" using seg by (simp add: filter_id_conv)
  moreover have "map sprune cs = cs" using seg by (simp add: map_idI sprune_segment)
  ultimately show ?case using t f c by (simp add: prune.simps)
next
  case (Suc k)
  then obtain cs where t: "t = Well cs" using regular_is_Well by blast
  with Suc.prems have reg: "\<And>c. c \<in> set cs \<Longrightarrow> regular k c" by (simp add: list_all_iff)
  have nseg: "\<not> is_segment c" if "c \<in> set cs" for c
    using reg [OF that] by (cases c) simp_all
  have f: "filter_e keeps cs = Inr (filter (\<lambda>c. leaves c \<noteq> []) cs)"
    by (rule filter_e_eq) (rule keeps_regular, rule reg)
  have c: "collect (map (\<lambda>well. if is_segment well then Inr well else prune well)
             (filter (\<lambda>c. leaves c \<noteq> []) cs)) = Inr (map sprune (filter (\<lambda>c. leaves c \<noteq> []) cs))"
    by (rule collect_map_eq) (use reg nseg Suc.IH in auto)
  have "filter (\<lambda>c. is_segment c \<or> leaves c \<noteq> []) cs = filter (\<lambda>c. leaves c \<noteq> []) cs"
    using nseg by (intro filter_cong) auto
  then show ?case using t f c by (simp add: prune.simps)
qed

lemma kept_iff: "is_segment c \<or> leaves c \<noteq> [] \<longleftrightarrow> leaves c \<noteq> []"
  by (cases c) simp_all

lemma concat_map_filter_nonempty: "concat (map f (filter (\<lambda>x. f x \<noteq> []) xs)) = concat (map f xs)"
  by (induction xs) simp_all

lemma leaves_sprune: "leaves (sprune t) = leaves t"
proof (induction t)
  case (WellSegment s)
  then show ?case by simp
next
  case (Well cs)
  have "map (leaves \<circ> sprune) (filter (\<lambda>c. leaves c \<noteq> []) cs) = map leaves (filter (\<lambda>c. leaves c \<noteq> []) cs)"
    using Well.IH by simp
  then have "concat (map (leaves \<circ> sprune) (filter (\<lambda>c. leaves c \<noteq> []) cs)) = concat (map leaves cs)"
    by (simp only: concat_map_filter_nonempty)
  then show ?case by (simp add: kept_iff)
qed

lemma sprune_idem: "sprune (sprune t) = sprune t"
proof (induction t)
  case (WellSegment s)
  then show ?case by simp
next
  case (Well cs)
  let ?ks = "filter (\<lambda>c. leaves c \<noteq> []) cs"
  have "filter (\<lambda>c. leaves c \<noteq> []) (map sprune ?ks) = map sprune ?ks"
    by (simp add: filter_id_conv leaves_sprune)
  moreover have "map sprune (map sprune ?ks) = map sprune ?ks"
    using Well.IH by simp
  ultimately show ?case by (simp add: kept_iff)
qed

lemma sprune_regular: "regular k t \<Longrightarrow> leaves t \<noteq> [] \<Longrightarrow> regular k (sprune t)"
proof (induction k arbitrary: t)
  case 0
  then obtain cs where t: "t = Well cs" using regular_is_Well by blast
  with 0 have seg: "\<And>c. c \<in> set cs \<Longrightarrow> is_segment c" by (simp add: has_segments_iff)
  have "filter (\<lambda>c. is_segment c \<or> leaves c \<noteq> []) cs = cs" using seg by (simp add: filter_id_conv)
  moreover have "map sprune cs = cs" using seg by (simp add: map_idI sprune_segment)
  ultimately show ?case using t 0 by simp
next
  case (Suc k)
  then obtain cs where t: "t = Well cs" using regular_is_Well by blast
  with Suc.prems have reg: "\<And>c. c \<in> set cs \<Longrightarrow> regular k c" by (simp add: list_all_iff)
  let ?ks = "filter (\<lambda>c. leaves c \<noteq> []) cs"
  have "?ks \<noteq> []" using Suc.prems(2) t by (auto simp: filter_empty_conv)
  moreover have "regular k (sprune c)" if "c \<in> set ?ks" for c
    using that reg Suc.IH by simp
  ultimately show ?case using t by (simp add: kept_iff list_all_iff)
qed

lemma sprune_no_leaves: "regular k t \<Longrightarrow> leaves t = [] \<Longrightarrow> sprune t = Well []"
proof (cases k)
  case 0
  assume "regular k t" "leaves t = []"
  with 0 obtain cs where t: "t = Well cs" and seg: "has_segments cs" and l: "concat (map leaves cs) = []"
    using regular_is_Well by (cases t) auto
  have "cs = []"
  proof (cases cs)
    case Nil then show ?thesis .
  next
    case (Cons c rest)
    with seg l show ?thesis by (cases c) (simp_all add: has_segments_def)
  qed
  then show ?thesis using t by simp
next
  case (Suc k')
  assume "regular k t" "leaves t = []"
  then obtain cs where t: "t = Well cs" and l: "concat (map leaves cs) = []"
    using regular_is_Well by (cases t) auto
  then have "filter (\<lambda>c. leaves c \<noteq> []) cs = []" by (auto simp: filter_empty_conv)
  then show ?thesis using t by (simp add: kept_iff)
qed

lemma prune_empty: "prune (Well []) = Inr (Well [])"
  by (simp add: prune.simps)

lemma sprune_leafy: "leaves t \<noteq> [] \<Longrightarrow> d \<in> set (subnodes (sprune t)) \<Longrightarrow> leaves d \<noteq> []"
proof (induction t arbitrary: d)
  case (WellSegment s)
  then show ?case by simp
next
  case (Well cs)
  show ?case
  proof (cases "d = sprune (Well cs)")
    case True
    then show ?thesis using Well.prems(1) leaves_sprune [of "Well cs"] by simp
  next
    case False
    with Well.prems(2) obtain c where c: "c \<in> set cs" "leaves c \<noteq> []" "d \<in> set (subnodes (sprune c))"
      by (auto simp: kept_iff)
    then show ?thesis using Well.IH by blast
  qed
qed

text \<open>
  Claim C8 (\<open>prune\<close> is idempotent and removes, at every level, the children that are not
  leaves and have no leaf below them): the code breaks it on trees in which an empty node
  stands first among the children of a node that is not a parent of leaves. \<open>tree_depth\<close> is
  read off the first child, so \<open>n_segments\<close> of such a node counts the nodes of a level above
  the leaves. The first \<open>prune\<close> keeps the child \<open>Well [Well [], Well [Well []]]\<close>, which has
  no leaf, and empties it; the second \<open>prune\<close> removes it. \<open>drop_nans\<close> reaches this tree
  from a result of \<open>create_segments\<close> and \<open>crop\<close> and returns the tree that is not fully
  pruned.
\<close>

theorem prune_not_idempotent:
  "prune (Well [Well [Well [], Well [Well []]]]) = Inr (Well [Well []])
   \<and> prune (Well [Well []]) = Inr (Well [])
   \<and> leaves (Well []) = []
   \<and> drop_nans (\<lambda>s. []) (Well [Well [Well [], Well [WellSegment \<lparr>seg_depth_from = 1, seg_depth_to = 5\<rparr>]]])
       = Inr (Well [Well []])"
proof (intro conjI)
  show "prune (Well [Well [Well [], Well [Well []]]]) = Inr (Well [Well []])"
    by (simp add: prune.simps iter_level.simps keeps_def n_segments_def has_segments_def)
  show "prune (Well [Well []]) = Inr (Well [])"
    by (simp add: prune.simps iter_level.simps keeps_def n_segments_def has_segments_def)
  show "leaves (Well []) = []" by simp
  show "drop_nans (\<lambda>s. []) (Well [Well [Well [], Well [WellSegment \<lparr>seg_depth_from = 1, seg_depth_to = 5\<rparr>]]])
       = Inr (Well [Well []])"
    by (simp add: drop_nans_def assign_wells_def prune.simps iter_level.simps keeps_def n_segments_def
        has_segments_def numeral_2_eq_2)
qed

text \<open>
  On every tree of uniform depth \<open>prune\<close> returns the tree (the state of \<open>self\<close> after the
  call) in which, at every level, exactly the children that are not leaves and have no leaf
  below them are removed; the leaves are the same, every node below the root of the result
  has a leaf below it, and a second \<open>prune\<close> returns the same tree.
\<close>

lemma prune_idempotent:
  assumes "regular k t"
  shows "prune t = Inr (sprune t) \<and> prune (sprune t) = Inr (sprune t)
       \<and> leaves (sprune t) = leaves t
       \<and> (\<forall>d \<in> set (subnodes (sprune t)). d = sprune t \<or> leaves d \<noteq> [])"
proof (intro conjI ballI)
  show "prune t = Inr (sprune t)" using assms by (rule prune_regular)
  show "leaves (sprune t) = leaves t" by (rule leaves_sprune)
  show "prune (sprune t) = Inr (sprune t)"
  proof (cases "leaves t = []")
    case True
    then show ?thesis using sprune_no_leaves [OF assms] prune_empty by simp
  next
    case False
    then have "regular k (sprune t)" using assms sprune_regular by blast
    then show ?thesis using prune_regular [of k "sprune t"] by (simp add: sprune_idem)
  qed
  fix d assume d: "d \<in> set (subnodes (sprune t))"
  show "d = sprune t \<or> leaves d \<noteq> []"
  proof (cases "leaves t = []")
    case True
    then show ?thesis using sprune_no_leaves [OF assms] d by simp
  next
    case False
    then show ?thesis using sprune_leafy d by blast
  qed
qed

lemma prune_idempotent_example:
  "prune (Well [Well [WellSegment \<lparr>seg_depth_from = 0, seg_depth_to = 1\<rparr>], Well []])
     = Inr (Well [Well [WellSegment \<lparr>seg_depth_from = 0, seg_depth_to = 1\<rparr>]])
   \<and> prune (Well [Well [WellSegment \<lparr>seg_depth_from = 0, seg_depth_to = 1\<rparr>]])
     = Inr (Well [Well [WellSegment \<lparr>seg_depth_from = 0, seg_depth_to = 1\<rparr>]])"
  using prune_idempotent [of 1 "Well [Well [WellSegment \<lparr>seg_depth_from = 0, seg_depth_to = 1\<rparr>], Well []]"]
  by (simp add: has_segments_def)

section \<open>Assignment to the nodes of a level\<close>

lemma length_chunks [simp]: "length (chunks ns xs) = length ns"
  by (induction ns arbitrary: xs) simp_all

lemma concat_chunks: "sum_list ns = length xs \<Longrightarrow> concat (chunks ns xs) = xs"
proof (induction ns arbitrary: xs)
  case Nil
  then show ?case by simp
next
  case (Cons n ns)
  then have "sum_list ns = length (drop n xs)" by simp
  then have "concat (chunks ns (drop n xs)) = drop n xs" by (rule Cons.IH)
  then show ?case by simp
qed

lemma chunks_lengths:
  "sum_list ns = length xs \<Longrightarrow> map length (chunks ns xs) = ns"
proof (induction ns arbitrary: xs)
  case Nil
  then show ?case by simp
next
  case (Cons n ns)
  then have "sum_list ns = length (drop n xs)" by simp
  then have "map length (chunks ns (drop n xs)) = ns" by (rule Cons.IH)
  moreover have "n \<le> length xs" using Cons.prems by simp
  ultimately show ?case by simp
qed

lemma assign_children_chunks:
  "assign_children l news cs =
     map (\<lambda>(ch, c). assign_level l ch c) (zip (chunks (map (\<lambda>c. length (level_nodes l c)) cs) news) cs)"
  by (induction cs arbitrary: news) simp_all

text \<open>What a child's piece of \<open>news\<close> looks like.\<close>

lemma chunk_of_child:
  assumes "sum_list (map (\<lambda>c. length (level_nodes l c)) cs) = length news"
    and "(ch, c) \<in> set (zip (chunks (map (\<lambda>c. length (level_nodes l c)) cs) news) cs)"
  shows "length ch = length (level_nodes l c) \<and> set ch \<subseteq> set news \<and> c \<in> set cs"
proof -
  let ?ns = "map (\<lambda>c. length (level_nodes l c)) cs"
  from assms(2) obtain i where i: "i < length cs" "chunks ?ns news ! i = ch" "cs ! i = c"
    by (auto simp: in_set_zip)
  have "map length (chunks ?ns news) ! i = ?ns ! i" using chunks_lengths [OF assms(1)] by simp
  then have 1: "length ch = length (level_nodes l c)" using i by simp
  have "ch \<in> set (chunks ?ns news)" using i by (metis length_chunks length_map nth_mem)
  then have "set ch \<subseteq> set (concat (chunks ?ns news))" by auto
  then have 2: "set ch \<subseteq> set news" using concat_chunks [OF assms(1)] by simp
  show ?thesis using 1 2 i by auto
qed

lemma width_Suc: "length (level_nodes (Suc l) (Well cs)) = sum_list (map (\<lambda>c. length (level_nodes l c)) cs)"
  by (simp add: length_concat comp_def)

lemma concat_map_zip_fst:
  "length xs = length ys \<Longrightarrow> concat (map (\<lambda>(x, y). f x) (zip xs ys)) = concat (map f xs)"
  by (induction xs ys rule: list_induct2) simp_all

lemma map_zip_cong:
  "(\<And>x y. (x, y) \<in> set (zip xs ys) \<Longrightarrow> f x y = g x y) \<Longrightarrow>
   map (\<lambda>(x, y). f x y) (zip xs ys) = map (\<lambda>(x, y). g x y) (zip xs ys)"
  by (rule map_cong) auto

lemma level_nodes_assign:
  "regular k t \<Longrightarrow> length news = length (level_nodes k t) \<Longrightarrow>
   level_nodes k (assign_level k news t) = map Well news"
proof (induction k arbitrary: t news)
  case 0
  then obtain cs where t: "t = Well cs" using regular_is_Well by blast
  from 0 obtain new where "news = [new]" by (cases news) auto
  then show ?case using t by simp
next
  case (Suc k)
  then obtain cs where t: "t = Well cs" using regular_is_Well by blast
  let ?ns = "map (\<lambda>c. length (level_nodes k c)) cs"
  let ?chs = "chunks ?ns news"
  have sum: "sum_list ?ns = length news" using Suc.prems(2) t width_Suc [of k cs] by simp
  have each: "level_nodes k (assign_level k ch c) = map Well ch"
    if "(ch, c) \<in> set (zip ?chs cs)" for ch c
  proof -
    from chunk_of_child [OF sum that] have "length ch = length (level_nodes k c)" "c \<in> set cs" by simp_all
    moreover have "regular k c" using \<open>c \<in> set cs\<close> Suc.prems(1) t by (simp add: list_all_iff)
    ultimately show ?thesis using Suc.IH by simp
  qed
  have "level_nodes (Suc k) (assign_level (Suc k) news t)
      = concat (map (\<lambda>(ch, c). level_nodes k (assign_level k ch c)) (zip ?chs cs))"
    using t by (simp add: assign_children_chunks comp_def case_prod_unfold)
  also have "map (\<lambda>(ch, c). level_nodes k (assign_level k ch c)) (zip ?chs cs)
      = map (\<lambda>(ch, c). map Well ch) (zip ?chs cs)"
    by (rule map_zip_cong) (rule each)
  also have "concat (map (\<lambda>(ch, c). map Well ch) (zip ?chs cs)) = concat (map (map Well) ?chs)"
    by (rule concat_map_zip_fst) simp
  also have "\<dots> = map Well (concat ?chs)" by (simp add: map_concat)
  also have "\<dots> = map Well news" using concat_chunks [OF sum] by simp
  finally show ?case .
qed


lemma concat_map_concat:
  "concat (map (\<lambda>c. concat (map f (g c))) cs) = concat (map f (concat (map g cs)))"
  by (induction cs) simp_all

lemma leaves_level_nodes: "regular k t \<Longrightarrow> leaves t = concat (map leaves (level_nodes k t))"
proof (induction k arbitrary: t)
  case 0
  then show ?case by simp
next
  case (Suc k)
  then obtain cs where t: "t = Well cs" using regular_is_Well by blast
  have "map leaves cs = map (\<lambda>c. concat (map leaves (level_nodes k c))) cs"
    using Suc t by (simp add: list_all_iff)
  then have "concat (map leaves cs) = concat (map (\<lambda>c. concat (map leaves (level_nodes k c))) cs)"
    by (rule arg_cong)
  then show ?case using t by (simp add: concat_map_concat)
qed

lemma regular_add_level_nodes:
  "regular (k + j) t \<Longrightarrow> leaves t = concat (map leaves (level_nodes k t))"
proof (induction k arbitrary: t)
  case 0
  then show ?case by simp
next
  case (Suc k)
  then obtain cs where t: "t = Well cs" using regular_is_Well by blast
  have "map leaves cs = map (\<lambda>c. concat (map leaves (level_nodes k c))) cs"
    using Suc t by (simp add: list_all_iff)
  then have "concat (map leaves cs) = concat (map (\<lambda>c. concat (map leaves (level_nodes k c))) cs)"
    by (rule arg_cong)
  then show ?case using t by (simp add: concat_map_concat)
qed

section \<open>The tree-shaping operations on trees of uniform depth\<close>

lemma assign_wells_regular: "regular k t \<Longrightarrow> assign_wells t news = Inr (assign_level k news t)"
  by (simp add: assign_wells_def tree_depth_regular)

lemma leaf_segments_children:
  "has_segments cs \<Longrightarrow> map WellSegment (leaf_segments (Well cs)) = cs"
proof (induction cs)
  case Nil
  then show ?case by simp
next
  case (Cons c cs)
  then show ?case by (cases c) (simp_all add: has_segments_def)
qed

lemma leaves_leaf_parent: "has_segments cs \<Longrightarrow> leaves (Well cs) = leaf_segments (Well cs)"
proof (induction cs)
  case Nil
  then show ?case by simp
next
  case (Cons c cs)
  then show ?case by (cases c) (simp_all add: has_segments_def)
qed

lemma leaves_regular_0: "regular 0 w \<Longrightarrow> leaves w = leaf_segments w"
  by (cases w) (use leaves_leaf_parent in simp_all)

lemma has_segments_map [simp]: "has_segments (map WellSegment xs)"
  by (simp add: has_segments_def list_all_iff)

lemma leaves_map_WellSegment [simp]: "concat (map leaves (map WellSegment xs)) = xs"
  by (induction xs) simp_all

lemma level_nodes_subnodes: "w \<in> set (level_nodes l t) \<Longrightarrow> w \<in> set (subnodes t)"
proof (induction l arbitrary: t)
  case 0
  then show ?case by (cases t) simp_all
next
  case (Suc l)
  then show ?case by (cases t) auto
qed

lemma level_nodes_0_regular: "regular k t \<Longrightarrow> w \<in> set (level_nodes k t) \<Longrightarrow> regular 0 w"
  using level_nodes_regular [of k t k] by (simp add: list_all_iff)

lemma leaves_level_nodes_segments:
  assumes "regular k t"
  shows "leaves t = concat (map leaf_segments (level_nodes k t))"
proof -
  have "map leaves (level_nodes k t) = map leaf_segments (level_nodes k t)"
    using level_nodes_0_regular [OF assms] by (simp add: leaves_regular_0)
  then have "concat (map leaves (level_nodes k t)) = concat (map leaf_segments (level_nodes k t))"
    by (rule arg_cong)
  then show ?thesis using leaves_level_nodes [OF assms] by simp
qed














section \<open>The delegator of the capability dispatcher\<close>

lemma delegator_loop_call_all:
  "delegator_loop call cs acc h =
     (case call_all call cs h of
        (Inl e, h') \<Rightarrow> (Inl e, h')
      | (Inr rs, h') \<Rightarrow> (Inr (acc @ concat (map as_list rs)), h'))"
proof (induction cs arbitrary: acc h)
  case Nil
  then show ?case by simp
next
  case (Cons c cs)
  show ?case
  proof (cases "call c h")
    case (Pair r h1)
    show ?thesis
    proof (cases r)
      case (Inl e)
      then show ?thesis using Pair by simp
    next
      case (Inr x)
      show ?thesis
      proof (cases "call_all call cs h1")
        case (Pair rs h2)
        then show ?thesis using \<open>call c h = (r, h1)\<close> Inr Cons.IH [of "acc @ as_list x" h1]
          by (cases rs) simp_all
      qed
    qed
  qed
qed

text \<open>
  Claim C4: when the calls of the operation on the direct children, made in the order of
  \<open>children\<close>, return \<open>rs\<close>, the delegator returns a new object (a reference that did not
  exist before, so not the caller) whose \<open>segments\<close> is the concatenation of the results in
  child order, a single item counting as a one-element list and a list being spliced in;
  every object that existed after the calls, the caller among them, is left as it was, so
  the \<open>segments\<close> of the caller is not reassigned.
\<close>

theorem delegator_copy:
  assumes obj: "self < length h"
    and self: "h ! self = WellObj cs"
    and calls: "call_all call cs h = (Inr rs, h')"
    and alive: "self < length h'"
  shows "delegator call self h = (Inr (length h'), h' @ [WellObj (concat (map as_list rs))])
       \<and> length h' \<noteq> self
       \<and> (h' @ [WellObj (concat (map as_list rs))]) ! self = h' ! self
       \<and> take (length h') (h' @ [WellObj (concat (map as_list rs))]) = h'
       \<and> (h' @ [WellObj (concat (map as_list rs))]) ! length h' = WellObj (concat (map as_list rs))"
proof (intro conjI)
  have "delegator_loop call cs [] h = (Inr (concat (map as_list rs)), h')"
    using calls by (simp add: delegator_loop_call_all)
  then show "delegator call self h = (Inr (length h'), h' @ [WellObj (concat (map as_list rs))])"
    using self by (simp add: delegator_def Let_def)
  show "length h' \<noteq> self" using alive by simp
  show "(h' @ [WellObj (concat (map as_list rs))]) ! self = h' ! self"
    using alive by (simp add: nth_append)
  show "take (length h') (h' @ [WellObj (concat (map as_list rs))]) = h'" by simp
  show "(h' @ [WellObj (concat (map as_list rs))]) ! length h' = WellObj (concat (map as_list rs))"
    by simp
qed

theorem delegator_copy_witness:
  "delegator (\<lambda>r h. (Inr (if r = 0 then Single r else Listed [r, r]), h)) 2
     [SegmentObj \<lparr>seg_depth_from = 0, seg_depth_to = 1\<rparr>,
      SegmentObj \<lparr>seg_depth_from = 1, seg_depth_to = 2\<rparr>, WellObj [0, 1]]
   = (Inr 3, [SegmentObj \<lparr>seg_depth_from = 0, seg_depth_to = 1\<rparr>,
              SegmentObj \<lparr>seg_depth_from = 1, seg_depth_to = 2\<rparr>, WellObj [0, 1], WellObj [0, 1, 1]])"
  using delegator_copy [of 2
      "[SegmentObj \<lparr>seg_depth_from = 0, seg_depth_to = 1\<rparr>,
        SegmentObj \<lparr>seg_depth_from = 1, seg_depth_to = 2\<rparr>, WellObj [0, 1]]"
      "[0, 1]" "\<lambda>r h. (Inr (if r = 0 then Single r else Listed [r, r]), h)"
      "[Single 0, Listed [1, 1]]"
      "[SegmentObj \<lparr>seg_depth_from = 0, seg_depth_to = 1\<rparr>,
        SegmentObj \<lparr>seg_depth_from = 1, seg_depth_to = 2\<rparr>, WellObj [0, 1]]"]
  by simp

section \<open>Counting and drawing\<close>

lemma counter_snoc: "counter (xs @ [x]) = counter_add x (counter xs)"
  by (simp add: counter_def)

lemma counter_Nil [simp]: "counter [] = []"
  by (simp add: counter_def)

lemma map_of_counter_add:
  "map_of (counter_add x kvs) y =
     (if y = x then Some (Suc (case map_of kvs x of None \<Rightarrow> 0 | Some n \<Rightarrow> n)) else map_of kvs y)"
  by (induction kvs) auto

lemma sum_counter_add: "sum_list (map snd (counter_add x kvs)) = Suc (sum_list (map snd kvs))"
  by (induction kvs) auto

lemma in_counter_add:
  "(j, m) \<in> set (counter_add x kvs) \<Longrightarrow> (j = x \<and> 1 \<le> m) \<or> (j, m) \<in> set kvs"
  by (induction kvs) (auto split: if_splits)

lemma map_of_counter:
  "map_of (counter xs) i = (if i \<in> set xs then Some (count_list xs i) else None)"
proof (induction xs arbitrary: i rule: rev_induct)
  case Nil
  then show ?case by simp
next
  case (snoc x xs)
  have "map_of (counter xs) x = (if x \<in> set xs then Some (count_list xs x) else None)"
    by (rule snoc.IH)
  moreover have "x \<notin> set xs \<Longrightarrow> count_list xs x = 0" by (simp add: count_list_0_iff)
  ultimately show ?case using snoc.IH [of i] by (simp add: counter_snoc map_of_counter_add)
qed

lemma sum_counter: "sum_list (map snd (counter xs)) = length xs"
  by (induction xs rule: rev_induct) (simp_all add: counter_snoc sum_counter_add)

lemma in_counter: "(j, m) \<in> set (counter xs) \<Longrightarrow> j \<in> set xs \<and> 1 \<le> m"
proof (induction xs arbitrary: j m rule: rev_induct)
  case Nil
  then show ?case by simp
next
  case (snoc x xs)
  then show ?case using in_counter_add [of j m x "counter xs"] by (auto simp: counter_snoc)
qed

lemma counter_add_not_Nil: "counter_add x kvs \<noteq> []"
  by (cases kvs) (auto split: if_splits)

lemma counter_not_Nil: "xs \<noteq> [] \<Longrightarrow> counter xs \<noteq> []"
  by (cases xs rule: rev_cases) (simp_all add: counter_snoc counter_add_not_Nil)

lemma sum_indicator:
  "sum_list (map (\<lambda>i. if x = i then 1 else 0) [0..<n]) = (if x < n then 1 else (0 :: nat))"
  by (induction n) auto

lemma sum_count_list:
  "\<forall>x \<in> set xs. x < n \<Longrightarrow> sum_list (map (count_list xs) [0..<n]) = length xs"
proof (induction xs)
  case Nil
  then show ?case by simp
next
  case (Cons x xs)
  have x: "x < n" using Cons.prems by simp
  have "sum_list (map (count_list (x # xs)) [0..<n])
      = sum_list (map (\<lambda>i. count_list xs i + (if x = i then 1 else 0)) [0..<n])"
    by (intro arg_cong [where f = sum_list] map_cong) auto
  also have "\<dots> = sum_list (map (count_list xs) [0..<n]) + sum_list (map (\<lambda>i. if x = i then 1 else 0) [0..<n])"
    by (simp add: sum_list_addf)
  also have "sum_list (map (\<lambda>i. if x = i then 1 else 0) [0..<n]) = (1 :: nat)"
    using x by (simp add: sum_indicator)
  finally show ?case using Cons by simp
qed

lemma choice_ok:
  assumes "\<forall>x \<in> set p. 0 \<le> x" and "0 < sum_list p"
  shows "choice n p picks = Inr (take n picks)"
proof -
  have "\<not> list_ex (\<lambda>x. x / sum_list p < 0) p"
    using assms by (auto simp: list_ex_iff divide_less_0_iff)
  then show ?thesis using assms(2) by (simp add: choice_def Let_def)
qed

section \<open>Pruning the tree that the sampling stages leave\<close>

lemma above_assign:
  "regular k t \<Longrightarrow> length news = length (level_nodes k t) \<Longrightarrow>
   (\<And>new. new \<in> set news \<Longrightarrow> Q (Well new)) \<Longrightarrow>
   above Q k (assign_level k news t)"
proof (induction k arbitrary: t news)
  case 0
  then obtain cs where t: "t = Well cs" using regular_is_Well by blast
  from 0 obtain new where "news = [new]" by (cases news) auto
  then show ?case using t "0.prems"(3) by simp
next
  case (Suc k)
  then obtain cs where t: "t = Well cs" using regular_is_Well by blast
  let ?ns = "map (\<lambda>c. length (level_nodes k c)) cs"
  let ?chs = "chunks ?ns news"
  have sum: "sum_list ?ns = length news" using Suc.prems(2) t width_Suc [of k cs] by simp
  have each: "above Q k (assign_level k ch c)"
    if "(ch, c) \<in> set (zip ?chs cs)" for ch c
  proof -
    from chunk_of_child [OF sum that]
    have 1: "length ch = length (level_nodes k c)" and 2: "c \<in> set cs" and 3: "set ch \<subseteq> set news" by simp_all
    have 4: "regular k c" using 2 Suc.prems(1) t by (simp add: list_all_iff)
    show ?thesis using Suc.IH [OF 4 1] 3 Suc.prems(3) by blast
  qed
  have ne: "cs \<noteq> []" using Suc.prems(1) t by simp
  have "assign_children k news cs \<noteq> []" using ne by (cases cs) simp_all
  moreover have "list_all (above Q k) (assign_children k news cs)"
    using each by (auto simp: assign_children_chunks list_all_iff)
  ultimately show ?case using t by simp
qed

lemma above_leaves: "above Q k t \<Longrightarrow> leaves t = concat (map leaves (level_nodes k t))"
proof (induction k arbitrary: t)
  case 0
  then show ?case by simp
next
  case (Suc k)
  then obtain cs where t: "t = Well cs" by (cases t) auto
  have "map leaves cs = map (\<lambda>c. concat (map leaves (level_nodes k c))) cs"
    using Suc t by (simp add: list_all_iff)
  then have "concat (map leaves cs) = concat (map (\<lambda>c. concat (map leaves (level_nodes k c))) cs)"
    by (rule arg_cong)
  then show ?case using t by (simp add: concat_map_concat)
qed

lemma cropped_is_Well: "above cropped_parent k t \<Longrightarrow> \<exists>cs. t = Well cs"
  by (cases k; cases t) simp_all

lemma cropped_not_segments:
  "\<not> has_segments cs" if "cs \<noteq> []" "list_all (above cropped_parent k) cs"
proof (cases cs)
  case Nil
  then show ?thesis using that by simp
next
  case (Cons c rest)
  with that have "above cropped_parent k c" by simp
  then obtain ds where "c = Well ds" using cropped_is_Well by blast
  then show ?thesis using Cons by (simp add: has_segments_def)
qed

lemma tree_depth_cropped:
  "above cropped_parent k t \<Longrightarrow>
   tree_depth t = Inr (int k + 2) \<or> tree_depth t = Inr (int k + 3)"
proof (induction k arbitrary: t)
  case 0
  then obtain cs where t: "t = Well cs" using cropped_is_Well by blast
  show ?case
  proof (cases cs)
    case Nil
    then show ?thesis using t by (simp add: has_segments_def)
  next
    case (Cons c rest)
    with 0 t have "regular 0 c" by simp
    then have "tree_depth c = Inr 2" using tree_depth_regular [of 0 c] by simp
    moreover have "\<not> has_segments cs"
      using \<open>regular 0 c\<close> Cons regular_is_Well [of 0 c] by (auto simp: has_segments_def)
    ultimately show ?thesis using t Cons by simp
  qed
next
  case (Suc k)
  then obtain cs where t: "t = Well cs" using cropped_is_Well by blast
  with Suc.prems obtain c rest where cs: "cs = c # rest" by (cases cs) auto
  have "above cropped_parent k c" using Suc.prems t cs by simp
  then have "tree_depth c = Inr (int k + 2) \<or> tree_depth c = Inr (int k + 3)" by (rule Suc.IH)
  moreover have "\<not> has_segments cs" using Suc.prems t cropped_not_segments [of cs k] by simp
  ultimately show ?case using t cs by auto
qed

lemma iter_level_cropped:
  "above cropped_parent k t \<Longrightarrow> l \<le> k + 2 \<Longrightarrow> iter_level t (int l) = Inr (level_nodes l t)"
proof (induction k arbitrary: t l)
  case 0
  then obtain cs where t: "t = Well cs" using cropped_is_Well by blast
  from tree_depth_cropped [OF "0.prems"(1)] obtain d where d: "tree_depth (Well cs) = Inr d" "2 \<le> d"
    using t by auto
  consider "l = 0" | "l = Suc 0" | "l = Suc (Suc 0)" using "0.prems"(2) by linarith
  then show ?case
  proof cases
    case 1
    then show ?thesis using iter_level_nonneg(1) [OF d(1)] t by simp
  next
    case 2
    then show ?thesis using iter_level_nonneg(2) [OF d(1)] t by simp
  next
    case 3
    have "iter_level c (int (Suc 0)) = Inr (level_nodes (Suc 0) c)" if "c \<in> set cs" for c
    proof -
      have "regular 0 c" using that "0.prems"(1) t by (simp add: list_all_iff)
      then show ?thesis by (rule iter_level_regular) simp
    qed
    then have "collect (map (\<lambda>c. iter_level c (int (Suc 0))) cs) = Inr (map (level_nodes (Suc 0)) cs)"
      by (rule collect_map_eq)
    moreover have "int l - 1 = int (Suc 0)" using 3 by simp
    moreover have "2 \<le> int l" "int l \<le> d" using 3 d(2) by simp_all
    ultimately show ?thesis using iter_level_nonneg(3) [OF d(1), of "int l"] t 3 by simp
  qed
next
  case (Suc k)
  then obtain cs where t: "t = Well cs" using cropped_is_Well by blast
  from tree_depth_cropped [OF Suc.prems(1)] obtain d where d: "tree_depth (Well cs) = Inr d" "int k + 3 \<le> d"
    using t by auto
  consider "l = 0" | "l = Suc 0" | l' where "l = Suc (Suc l')" by (cases l rule: nat.exhaust; cases "l - 1") auto
  then show ?case
  proof cases
    case 1
    then show ?thesis using iter_level_nonneg(1) [OF d(1)] t by simp
  next
    case 2
    then show ?thesis using iter_level_nonneg(2) [OF d(1)] t by simp
  next
    case 3
    have le: "Suc l' \<le> k + 2" using 3 Suc.prems(2) by simp
    have "iter_level c (int (Suc l')) = Inr (level_nodes (Suc l') c)" if "c \<in> set cs" for c
    proof -
      have "above cropped_parent k c" using that Suc.prems(1) t by (simp add: list_all_iff)
      then show ?thesis using le by (rule Suc.IH)
    qed
    then have "collect (map (\<lambda>c. iter_level c (int (Suc l'))) cs) = Inr (map (level_nodes (Suc l')) cs)"
      by (rule collect_map_eq)
    moreover have "int l - 1 = int (Suc l')" using 3 by simp
    moreover have "2 \<le> int l" "int l \<le> d" using 3 Suc.prems(2) d(2) by simp_all
    ultimately show ?thesis using iter_level_nonneg(3) [OF d(1), of "int l"] t 3 by simp
  qed
qed

lemma cropped_level_empty:
  "above cropped_parent k t \<Longrightarrow>
   (level_nodes (Suc k) t = [] \<longleftrightarrow> leaves t = [])
   \<and> (level_nodes (Suc (Suc k)) t = [] \<longleftrightarrow> leaves t = [])"
proof (induction k arbitrary: t)
  case 0
  then obtain cs where t: "t = Well cs" using cropped_is_Well by blast
  have c: "regular 0 c \<and> leaves c \<noteq> []" if "c \<in> set cs" for c
    using that 0 t by (simp add: list_all_iff)
  have 1: "level_nodes (Suc 0) c \<noteq> []" if "c \<in> set cs" for c
    using c [OF that] level_nodes_leaves [of 0 c] by simp
  show ?case using t c 1 by (cases cs) auto
next
  case (Suc k)
  then obtain cs where t: "t = Well cs" using cropped_is_Well by blast
  have "(level_nodes (Suc k) c = [] \<longleftrightarrow> leaves c = [])
      \<and> (level_nodes (Suc (Suc k)) c = [] \<longleftrightarrow> leaves c = [])" if "c \<in> set cs" for c
    using that Suc t by (simp add: list_all_iff)
  then show ?case using t by simp
qed

lemma n_segments_cropped:
  assumes "above cropped_parent k t"
  shows "\<exists>n. n_segments t = Inr n \<and> (n = 0 \<longleftrightarrow> leaves t = [])"
proof -
  obtain cs where t: "t = Well cs" using assms cropped_is_Well by blast
  from tree_depth_cropped [OF assms] consider
    "tree_depth (Well cs) = Inr (int k + 2)" | "tree_depth (Well cs) = Inr (int k + 3)"
    using t by auto
  then show ?thesis
  proof cases
    case 1
    have "iter_level (Well cs) (- 1) = iter_level (Well cs) (int k + 2 + - 1)"
      by (rule iter_level_negative(2) [OF 1]) simp_all
    also have "int k + 2 + - 1 = int (Suc k)" by simp
    also have "iter_level (Well cs) (int (Suc k)) = Inr (level_nodes (Suc k) (Well cs))"
      using iter_level_cropped [OF assms, of "Suc k"] t by simp
    finally show ?thesis using cropped_level_empty [OF assms] t by (simp add: n_segments_def)
  next
    case 2
    have "iter_level (Well cs) (- 1) = iter_level (Well cs) (int k + 3 + - 1)"
      by (rule iter_level_negative(2) [OF 2]) simp_all
    also have "int k + 3 + - 1 = int (Suc (Suc k))" by simp
    also have "iter_level (Well cs) (int (Suc (Suc k))) = Inr (level_nodes (Suc (Suc k)) (Well cs))"
      using iter_level_cropped [OF assms, of "Suc (Suc k)"] t by simp
    finally show ?thesis using cropped_level_empty [OF assms] t by (simp add: n_segments_def)
  qed
qed

lemma keeps_cropped: "above cropped_parent k c \<Longrightarrow> keeps c = Inr (leaves c \<noteq> [])"
proof -
  assume r: "above cropped_parent k c"
  then have "\<not> is_segment c" using cropped_is_Well by (cases c) auto
  then show ?thesis using n_segments_cropped [OF r] by (auto simp: keeps_def)
qed

lemma prune_Well:
  assumes "\<And>c. c \<in> set cs \<Longrightarrow> keeps c = Inr (leaves c \<noteq> [])"
    and "\<And>c. c \<in> set cs \<Longrightarrow> \<not> is_segment c \<Longrightarrow> prune c = Inr (sprune c)"
  shows "prune (Well cs) = Inr (sprune (Well cs))"
proof -
  have f: "filter_e keeps cs = Inr (filter (\<lambda>c. leaves c \<noteq> []) cs)"
    by (rule filter_e_eq) (rule assms(1))
  have c: "collect (map (\<lambda>well. if is_segment well then Inr well else prune well)
             (filter (\<lambda>c. leaves c \<noteq> []) cs)) = Inr (map sprune (filter (\<lambda>c. leaves c \<noteq> []) cs))"
    by (rule collect_map_eq) (use assms(2) sprune_segment in auto)
  show ?thesis using f c by (simp add: prune.simps kept_iff)
qed

lemma prune_cropped: "above cropped_parent k t \<Longrightarrow> prune t = Inr (sprune t)"
proof (induction k arbitrary: t)
  case 0
  then obtain cs where t: "t = Well cs" using cropped_is_Well by blast
  have c: "regular 0 c" if "c \<in> set cs" for c using that 0 t by (simp add: list_all_iff)
  show ?case unfolding t
    by (rule prune_Well) (use c keeps_regular prune_regular in blast)+
next
  case (Suc k)
  then obtain cs where t: "t = Well cs" using cropped_is_Well by blast
  have c: "above cropped_parent k c" if "c \<in> set cs" for c
    using that Suc.prems t by (simp add: list_all_iff)
  show ?case unfolding t
    by (rule prune_Well) (use c keeps_cropped Suc.IH in blast)+
qed

section \<open>\<open>random_crop\<close> on trees of uniform depth\<close>

lemma pos_sum_list:
  fixes p :: "real list"
  assumes "\<forall>x \<in> set p. 0 \<le> x" and "i < length p" and "0 < p ! i"
  shows "0 < sum_list p"
proof -
  have "p ! i \<le> sum_list p" using assms(1,2) by (intro member_le_sum_list) auto
  then show ?thesis using assms(3) by simp
qed

lemma leaf_segments_subset:
  assumes "regular k t" and "w \<in> set (level_nodes k t)"
  shows "set (leaf_segments w) \<subseteq> set (leaves t)"
  using assms leaves_level_nodes_segments [OF assms(1)] by auto

lemma crop_well_eq:
  assumes "\<forall>s \<in> set (leaf_segments w). 0 \<le> seg_length s"
    and "0 < sum_list (map seg_length (leaf_segments w))"
  shows "crop_well lrc picks c w =
     Inr (map (\<lambda>(j, m). Well (map WellSegment (lrc (leaf_segments w ! j) m))) (counter (take c picks)))"
proof -
  have "choice c (map seg_length (leaf_segments w)) picks = Inr (take c picks)"
    using assms by (intro choice_ok) auto
  then show ?thesis by (simp add: crop_well_def Let_def)
qed

lemma crops_of_well:
  fixes lrc :: "segment \<Rightarrow> nat \<Rightarrow> segment list" and segs :: "segment list" and xs :: "nat list"
  assumes leaf: "\<forall>s m. length (lrc s m) = (m :: nat)"
  defines "new \<equiv> map (\<lambda>(j, m). Well (map WellSegment (lrc (segs ! j) m))) (counter xs)"
  shows "cropped_parent (Well new)" and "length (leaves (Well new)) = length xs"
proof -
  have "regular 0 c \<and> leaves c \<noteq> []" if "c \<in> set new" for c
  proof -
    from that obtain j m where jm: "(j, m) \<in> set (counter xs)"
      and c: "c = Well (map WellSegment (lrc (segs ! j) m))" by (auto simp: new_def)
    have "1 \<le> m" using in_counter [OF jm] by simp
    then have "lrc (segs ! j) m \<noteq> []" using leaf by (metis length_0_conv not_one_le_zero)
    then show ?thesis using c by simp
  qed
  then show "cropped_parent (Well new)" by (simp add: list_all_iff)
  have "map (\<lambda>c. length (leaves c)) new = map snd (counter xs)"
    using leaf by (simp add: new_def comp_def case_prod_unfold)
  then have "sum_list (map (\<lambda>c. length (leaves c)) new) = sum_list (map snd (counter xs))"
    by (rule arg_cong)
  then show "length (leaves (Well new)) = length xs"
    by (simp add: length_concat comp_def sum_counter)
qed

lemma map_enumerate_index:
  "map (\<lambda>(i, w). f i) (enumerate 0 ws) = map f [0..<length ws]"
proof -
  have "map (\<lambda>(i, w). f i) (enumerate 0 ws) = map (f \<circ> fst) (enumerate 0 ws)"
    by (rule map_cong) auto
  also have "\<dots> = map f (map fst (enumerate 0 ws))" by (simp only: map_map)
  also have "\<dots> = map f [0..<length ws]" by (simp only: map_fst_enumerate add_0)
  finally show ?thesis .
qed

text \<open>
  Claim C6 (\<open>random_crop(length, n_crops)\<close> produces a tree with exactly \<open>n_crops\<close> leaves in
  which no branch without leaves remains): the code breaks it on a tree with an empty node
  above the level of the parents of leaves. Four calls of \<open>create_segments\<close> and \<open>crop\<close> build
  the tree below when one leaf yields no crop. \<open>iter_level(-2)\<close> returns its only parent of
  leaves, which has positive length and receives the crop; but the \<open>prune\<close> that ends
  \<open>random_crop\<close> asks the empty node, whose \<open>tree_depth\<close> reads 2, for level 4 and raises
  \<open>ValueError\<close>: no tree is produced.
\<close>

theorem random_crop_raises:
  "iter_level (Well [Well [Well [Well [Well [WellSegment \<lparr>seg_depth_from = 0, seg_depth_to = 1\<rparr>]]],
                           Well []]]) (- 2)
     = Inr [Well [WellSegment \<lparr>seg_depth_from = 0, seg_depth_to = 1\<rparr>]]
   \<and> random_crop_assign (\<lambda>s n. replicate n s) [0] (\<lambda>i. [0]) 1
       (Well [Well [Well [Well [Well [WellSegment \<lparr>seg_depth_from = 0, seg_depth_to = 1\<rparr>]]],
                    Well []]])
     = Inr (Well [Well [Well [Well [Well [Well [WellSegment \<lparr>seg_depth_from = 0, seg_depth_to = 1\<rparr>]]]],
                        Well []]])
   \<and> random_crop (\<lambda>s n. replicate n s) [0] (\<lambda>i. [0]) 1
       (Well [Well [Well [Well [Well [WellSegment \<lparr>seg_depth_from = 0, seg_depth_to = 1\<rparr>]]],
                    Well []]])
     = Inl ValueError"
proof (intro conjI)
  show 1: "iter_level (Well [Well [Well [Well [Well [WellSegment \<lparr>seg_depth_from = 0, seg_depth_to = 1\<rparr>]]],
                           Well []]]) (- 2)
     = Inr [Well [WellSegment \<lparr>seg_depth_from = 0, seg_depth_to = 1\<rparr>]]"
    by (simp add: iter_level.simps has_segments_def)
  show 2: "random_crop_assign (\<lambda>s n. replicate n s) [0] (\<lambda>i. [0]) 1
       (Well [Well [Well [Well [Well [WellSegment \<lparr>seg_depth_from = 0, seg_depth_to = 1\<rparr>]]],
                    Well []]])
     = Inr (Well [Well [Well [Well [Well [Well [WellSegment \<lparr>seg_depth_from = 0, seg_depth_to = 1\<rparr>]]]],
                        Well []]])"
    by (simp add: random_crop_assign_def 1 has_segments_def choice_def crop_well_def counter_def
        seg_length_def assign_wells_def Let_def eval_nat_numeral)
  have 3: "prune (Well [Well [Well [Well [Well [Well [WellSegment \<lparr>seg_depth_from = 0, seg_depth_to = 1\<rparr>]]]],
                        Well []]]) = Inl ValueError"
    by (simp add: prune.simps iter_level.simps keeps_def n_segments_def has_segments_def)
  show "random_crop (\<lambda>s n. replicate n s) [0] (\<lambda>i. [0]) 1
       (Well [Well [Well [Well [Well [WellSegment \<lparr>seg_depth_from = 0, seg_depth_to = 1\<rparr>]]],
                    Well []]])
     = Inl ValueError"
    by (simp only: random_crop_def 2 3 sum.case)
qed

text \<open>
  On a tree of uniform depth \<open>random_crop\<close> returns the tree it is meant to. The leaves have
  non-negative length, \<open>n_crops \<ge> 1\<close>, and the two sampling stages draw as
  \<open>np.random.choice\<close> does: the first stage draws parents of leaves of positive total length,
  the second stage draws, for every parent that was drawn, as many positions of its leaves as
  it was drawn times; the leaf collaborator returns exactly \<open>m\<close> leaves for
  \<open>random_crop(length, m)\<close>. Then after the sampling stages every parent of leaves that was
  not drawn has no children, \<open>prune\<close> is applied, and \<open>random_crop\<close> returns a tree with
  exactly \<open>n_crops\<close> leaves in which every node has a leaf below it.
\<close>

lemma random_crop_count:
  fixes leaf_random_crop :: "segment \<Rightarrow> nat \<Rightarrow> segment list"
  assumes r: "regular k t"
    and nonneg: "\<forall>s \<in> set (leaves t). 0 \<le> seg_length s"
    and n1: "1 \<le> n_crops" and n2: "n_crops \<le> length picks1"
    and p1: "\<forall>i \<in> set (take n_crops picks1). i < length (level_nodes k t)
               \<and> 0 < sum_list (map seg_length (leaf_segments (level_nodes k t ! i)))"
    and p2: "\<forall>i \<in> set (take n_crops picks1).
               count_list (take n_crops picks1) i \<le> length (picks2 i)
               \<and> (\<forall>j \<in> set (take (count_list (take n_crops picks1) i) (picks2 i)).
                     j < length (leaf_segments (level_nodes k t ! i)))"
    and leaf: "\<forall>s m. length (leaf_random_crop s m) = m"
  shows "\<exists>t1. random_crop_assign leaf_random_crop picks1 picks2 n_crops t = Inr t1
       \<and> length (level_nodes k t1) = length (level_nodes k t)
       \<and> (\<forall>i < length (level_nodes k t).
             i \<notin> set (take n_crops picks1) \<longrightarrow> level_nodes k t1 ! i = Well [])
       \<and> random_crop leaf_random_crop picks1 picks2 n_crops t = Inr (sprune t1)
       \<and> length (leaves (sprune t1)) = n_crops
       \<and> (\<forall>d \<in> set (subnodes (sprune t1)). leaves d \<noteq> [])"
proof -
  let ?ws = "level_nodes k t"
  let ?drawn = "take n_crops picks1"
  let ?p = "map (\<lambda>item. sum_list (map seg_length (leaf_segments item))) ?ws"
  define new_of where "new_of = (\<lambda>(i, w).
      if i \<in> set ?drawn
      then map (\<lambda>(j, m). Well (map WellSegment (leaf_random_crop (leaf_segments w ! j) m)))
             (counter (take (count_list ?drawn i) (picks2 i)))
      else [])"
  let ?news = "map new_of (enumerate 0 ?ws)"
  let ?t1 = "assign_level k ?news t"
  have len_drawn: "length ?drawn = n_crops" using n2 by simp
  have seg_nonneg: "\<forall>s \<in> set (leaf_segments w). 0 \<le> seg_length s" if "w \<in> set ?ws" for w
    using leaf_segments_subset [OF r that] nonneg by blast
  \<comment> \<open>the first stage\<close>
  have p_nonneg: "\<forall>x \<in> set ?p. 0 \<le> x"
    using seg_nonneg by (auto intro!: sum_list_nonneg)
  obtain i0 where i0: "i0 \<in> set ?drawn" using n1 len_drawn by (cases ?drawn) auto
  have "0 < sum_list ?p"
  proof (rule pos_sum_list [OF p_nonneg, of i0])
    show "i0 < length ?p" using p1 i0 by simp
    show "0 < ?p ! i0" using p1 i0 by simp
  qed
  then have ch1: "choice n_crops ?p picks1 = Inr ?drawn" using p_nonneg by (intro choice_ok)
  \<comment> \<open>the second stage, node by node\<close>
  have each: "(case map_of (counter ?drawn) i of
                 Some n_well_crops \<Rightarrow> crop_well leaf_random_crop (picks2 i) n_well_crops w
               | None \<Rightarrow> Inr []) = Inr (new_of (i, w))"
    if "(i, w) \<in> set (enumerate 0 ?ws)" for i w
  proof (cases "i \<in> set ?drawn")
    case False
    then show ?thesis by (simp add: map_of_counter new_of_def)
  next
    case True
    from that have iw: "i < length ?ws" "w = ?ws ! i" by (auto simp: in_set_enumerate_eq)
    then have w: "w \<in> set ?ws" by simp
    have "0 < sum_list (map seg_length (leaf_segments w))" using p1 True iw by blast
    then have "crop_well leaf_random_crop (picks2 i) (count_list ?drawn i) w =
       Inr (map (\<lambda>(j, m). Well (map WellSegment (leaf_random_crop (leaf_segments w ! j) m)))
              (counter (take (count_list ?drawn i) (picks2 i))))"
      using seg_nonneg [OF w] by (intro crop_well_eq)
    then show ?thesis using True by (simp add: map_of_counter new_of_def)
  qed
  have coll: "collect (map (\<lambda>(i, well).
                 case map_of (counter ?drawn) i of
                   Some n_well_crops \<Rightarrow> crop_well leaf_random_crop (picks2 i) n_well_crops well
                 | None \<Rightarrow> Inr []) (enumerate 0 ?ws)) = Inr ?news"
    by (rule collect_map_eq) (use each in auto)
  have len: "length ?news = length ?ws" by simp
  have run1: "random_crop_assign leaf_random_crop picks1 picks2 n_crops t = Inr ?t1"
    using r ch1 coll
    by (simp add: random_crop_assign_def iter_level_minus_2 parents_of_leaves assign_wells_regular
        Let_def)
  have ln: "level_nodes k ?t1 = map Well ?news" using r len by (rule level_nodes_assign)
  \<comment> \<open>the shape and the leaves of the tree before pruning\<close>
  have new_props: "cropped_parent (Well (new_of (i, w)))
      \<and> length (leaves (Well (new_of (i, w)))) = count_list ?drawn i"
    if "(i, w) \<in> set (enumerate 0 ?ws)" for i w
  proof (cases "i \<in> set ?drawn")
    case False
    then show ?thesis by (simp add: new_of_def count_list_0_iff)
  next
    case True
    have "count_list ?drawn i \<le> length (picks2 i)" using p2 True by blast
    then have l: "length (take (count_list ?drawn i) (picks2 i)) = count_list ?drawn i" by simp
    show ?thesis
      using crops_of_well [OF leaf, of "leaf_segments w" "take (count_list ?drawn i) (picks2 i)"] True l
      by (simp add: new_of_def)
  qed
  have crp: "above cropped_parent k ?t1"
  proof (rule above_assign [OF r len])
    fix new assume "new \<in> set ?news"
    then obtain i w where "(i, w) \<in> set (enumerate 0 ?ws)" "new = new_of (i, w)" by auto
    then show "cropped_parent (Well new)" using new_props by blast
  qed
  have "leaves ?t1 = concat (map leaves (level_nodes k ?t1))" using crp by (rule above_leaves)
  then have "length (leaves ?t1) = sum_list (map (\<lambda>new. length (leaves (Well new))) ?news)"
    by (simp add: ln length_concat comp_def)
  also have "\<dots> = sum_list (map (\<lambda>(i, w). length (leaves (Well (new_of (i, w))))) (enumerate 0 ?ws))"
    by (simp add: comp_def case_prod_unfold)
  also have "map (\<lambda>(i, w). length (leaves (Well (new_of (i, w))))) (enumerate 0 ?ws)
      = map (\<lambda>(i, w). count_list ?drawn i) (enumerate 0 ?ws)"
    by (rule map_cong) (use new_props in auto)
  also have "\<dots> = map (count_list ?drawn) [0..<length ?ws]" by (rule map_enumerate_index)
  also have "sum_list \<dots> = length ?drawn" using p1 by (intro sum_count_list) blast
  finally have count: "length (leaves ?t1) = n_crops" using len_drawn by simp
  \<comment> \<open>pruning\<close>
  have pr: "prune ?t1 = Inr (sprune ?t1)" using crp by (rule prune_cropped)
  have run: "random_crop leaf_random_crop picks1 picks2 n_crops t = Inr (sprune ?t1)"
    using run1 pr by (simp add: random_crop_def)
  have cnt: "length (leaves (sprune ?t1)) = n_crops" using count by (simp add: leaves_sprune)
  have "leaves ?t1 \<noteq> []" using count n1 by auto
  then have leafy: "\<forall>d \<in> set (subnodes (sprune ?t1)). leaves d \<noteq> []"
    using sprune_leafy by blast
  have cleared: "\<forall>i < length ?ws. i \<notin> set ?drawn \<longrightarrow> level_nodes k ?t1 ! i = Well []"
  proof (intro allI impI)
    fix i assume i: "i < length ?ws" "i \<notin> set ?drawn"
    have a: "?news ! i = new_of (enumerate 0 ?ws ! i)" using i(1) by simp
    have b: "enumerate 0 ?ws ! i = (i, ?ws ! i)" using i(1) by (simp add: nth_enumerate_eq)
    have c: "new_of (i, ?ws ! i) = []" using i(2) by (simp add: new_of_def)
    have "map Well ?news ! i = Well (?news ! i)" using i(1) by simp
    then show "level_nodes k ?t1 ! i = Well []" by (simp only: ln a b c)
  qed
  have l2: "length (level_nodes k ?t1) = length ?ws" by (simp add: ln)
  show ?thesis using run1 l2 cleared run cnt leafy by blast
qed

lemma random_crop_count_example:
  "random_crop (\<lambda>s n. replicate n s) [1, 1, 1] (\<lambda>i. [1, 0, 1]) 3
     (Well [Well [],
            Well [WellSegment \<lparr>seg_depth_from = 0, seg_depth_to = 6\<rparr>,
                  WellSegment \<lparr>seg_depth_from = 1, seg_depth_to = 2\<rparr>]])
   = Inr (Well [Well [Well [WellSegment \<lparr>seg_depth_from = 1, seg_depth_to = 2\<rparr>,
                            WellSegment \<lparr>seg_depth_from = 1, seg_depth_to = 2\<rparr>],
                      Well [WellSegment \<lparr>seg_depth_from = 0, seg_depth_to = 6\<rparr>]]])
   \<and> length (leaves (Well [Well [Well [WellSegment \<lparr>seg_depth_from = 1, seg_depth_to = 2\<rparr>,
                            WellSegment \<lparr>seg_depth_from = 1, seg_depth_to = 2\<rparr>],
                      Well [WellSegment \<lparr>seg_depth_from = 0, seg_depth_to = 6\<rparr>]]])) = 3"
proof -
  let ?t = "Well [Well [],
            Well [WellSegment \<lparr>seg_depth_from = 0, seg_depth_to = 6\<rparr>,
                  WellSegment \<lparr>seg_depth_from = 1, seg_depth_to = 2\<rparr>]]"
  let ?lrc = "\<lambda>(s :: segment) n. replicate n s"
  let ?picks2 = "\<lambda>i :: nat. [1 :: nat, 0, 1]"
  have r: "regular 1 ?t" by (simp add: has_segments_def)
  have nonneg: "\<forall>s \<in> set (leaves ?t). 0 \<le> seg_length s" by (simp add: seg_length_def)
  have n1: "1 \<le> (3 :: nat)" by simp
  have n2: "3 \<le> length [1 :: nat, 1, 1]" by simp
  have p1: "\<forall>i \<in> set (take 3 [1 :: nat, 1, 1]). i < length (level_nodes 1 ?t)
               \<and> 0 < sum_list (map seg_length (leaf_segments (level_nodes 1 ?t ! i)))"
    by (simp add: seg_length_def)
  have p2: "\<forall>i \<in> set (take 3 [1 :: nat, 1, 1]).
               count_list (take 3 [1 :: nat, 1, 1]) i \<le> length (?picks2 i)
               \<and> (\<forall>j \<in> set (take (count_list (take 3 [1 :: nat, 1, 1]) i) (?picks2 i)).
                     j < length (leaf_segments (level_nodes 1 ?t ! i)))"
    by simp
  have leaf: "\<forall>s m. length (?lrc s m) = m" by simp
  have run: "random_crop ?lrc [1, 1, 1] ?picks2 3 ?t
      = Inr (Well [Well [Well [WellSegment \<lparr>seg_depth_from = 1, seg_depth_to = 2\<rparr>,
                            WellSegment \<lparr>seg_depth_from = 1, seg_depth_to = 2\<rparr>],
                      Well [WellSegment \<lparr>seg_depth_from = 0, seg_depth_to = 6\<rparr>]]])"
    by (simp add: random_crop_def random_crop_assign_def iter_level.simps prune.simps keeps_def
        n_segments_def has_segments_def choice_def crop_well_def counter_def seg_length_def
        assign_wells_def Let_def eval_nat_numeral enumerate_eq_zip)
  from random_crop_count [OF r nonneg n1 n2 p1 p2 leaf]
  obtain t1 where "random_crop ?lrc [1, 1, 1] ?picks2 3 ?t = Inr (sprune t1)"
    and "length (leaves (sprune t1)) = 3" by blast
  then show ?thesis using run by simp
qed

end
